theory Spec2Isabelle
  imports Main "HOL-Library.Multiset"
begin

section \<open>Windowed nearest-neighbour itinerary (nearNextP8bWindow.c)\<close>

text \<open>
  The development embeds the program \<^verbatim>\<open>src/uniSpherical/nearNextP8bWindow.c\<close>:
  the command-line and file-size checks of \<^verbatim>\<open>main\<close>, the loading of the location
  array, the two searches \<^verbatim>\<open>closeInWin\<close> and \<^verbatim>\<open>closeOutWin\<close>, the itinerary loop and
  the final \<^verbatim>\<open>qsort\<close> with \<^verbatim>\<open>compIntsIx0\<close>; and the inner scan of the brute-force
  baseline \<^verbatim>\<open>src/uniSpherical/nearNextP8bBruteForce.c\<close>.

  C \<^verbatim>\<open>int\<close> values are modelled as \<open>int\<close>: the location count is a file size divided
  by the record size, the half window is at most 16000 and order values stay below the
  location count, so no sum or difference of the program leaves the 32-bit range.
  Undefined behaviour of C (a read outside the array, a remainder by zero) is an
  explicit failure value of the model.
\<close>

subsection \<open>Data model\<close>

text \<open>\<^verbatim>\<open>struct loc { int iOrd; int unused; nemoPtUs8 ptUs8; }\<close>. The coordinate type
  \<^verbatim>\<open>nemoPtUs8\<close> is declared in \<^verbatim>\<open>nemo.h\<close>, which is not part of the sources; it is the
  type parameter \<open>'t\<close>.\<close>

record 't loc =
  iOrd :: int
  unused :: int
  ptUs8 :: 't

text \<open>The part of the Nemo library the searches use, as parameters: the conversion
  \<^verbatim>\<open>nemo_Us8ToNcs\<close>, the macro \<^verbatim>\<open>NEMO_ChordSq3\<close> (applied to the \<^verbatim>\<open>dc\<close> vectors of two
  converted points) and the constant \<^verbatim>\<open>NEMO_DOUBLE_HUGE\<close>. The C \<^verbatim>\<open>double\<close> results are
  values of a linear order \<open>'d\<close>.\<close>

record ('t, 'v, 'd) nemo =
  Us8ToNcs :: "'t \<Rightarrow> 'v"
  ChordSq3 :: "'v \<Rightarrow> 'v \<Rightarrow> 'd"
  DOUBLE_HUGE :: 'd

text \<open>Modelled from the spec: \<^verbatim>\<open>errorExit\<close> (\<^verbatim>\<open>scullions/errorExit.c\<close>, which is not part
  of the sources) reports its message and terminates the run with a non-zero status. A
  call of it is a result \<open>Inl\<close> of one of the first four failures, named as the
  specification's error taxonomy names them: \<open>ConfigurationError\<close> for lines 75 and 90,
  \<open>IOError\<close> for lines 80, 85 and 96, \<open>FormatError\<close> (with the two numbers of the
  message) for line 101, \<open>InvariantViolation\<close> for line 129. \<open>DivideByZero\<close> and
  \<open>OutOfBounds\<close> stand for undefined behaviour of the C program.\<close>

datatype failure =
    ConfigurationError
  | IOError
  | FormatError int int
  | InvariantViolation
  | DivideByZero
  | OutOfBounds

text \<open>The module-level variables \<^verbatim>\<open>locs\<close>, \<^verbatim>\<open>iWin\<close>, \<^verbatim>\<open>nInsideWin\<close>, \<^verbatim>\<open>nOutsideWin\<close>.
  The variable \<^verbatim>\<open>lcnCnt\<close> always holds the number of elements of \<^verbatim>\<open>locs\<close> and is derived
  from the list. The field \<open>orderLog\<close> is a ghost field with no counterpart in the C
  state: it records every store to an \<^verbatim>\<open>iOrd\<close> field made by the itinerary code, as
  (index, value before, value stored).\<close>

record 't engine =
  locs :: "'t loc list"
  iWin :: int
  nInsideWin :: int
  nOutsideWin :: int
  orderLog :: "(int \<times> int \<times> int) list"

definition lcnCnt :: "'t engine \<Rightarrow> int" where
  "lcnCnt s = int (length (locs s))"

definition MIN_WIN :: int where
  "MIN_WIN = 16"

definition MAX_WIN :: int where
  "MAX_WIN = 32000"

text \<open>C's \<^verbatim>\<open>/\<close> and \<^verbatim>\<open>%\<close> on \<^verbatim>\<open>int\<close> truncate towards zero.\<close>

definition c_div :: "int \<Rightarrow> int \<Rightarrow> int" where
  "c_div a b = sgn a * sgn b * (\<bar>a\<bar> div \<bar>b\<bar>)"

definition c_mod :: "int \<Rightarrow> int \<Rightarrow> int" where
  "c_mod a b = a - b * c_div a b"

subsection \<open>closeInWin\<close>

text \<open>The \<^verbatim>\<open>for\<close> loop of \<^verbatim>\<open>closeInWin\<close> (lines 188-198), from index \<open>n\<close> with the
  running minimum \<open>csqMin\<close> and its index \<open>nMin\<close>.\<close>

function closeInWin_loop ::
  "('t, 'v, 'd::linorder) nemo \<Rightarrow> 't loc list \<Rightarrow> 'v \<Rightarrow> int \<Rightarrow> int \<Rightarrow> 'd \<Rightarrow> int \<Rightarrow> int" where
  "closeInWin_loop K ls ptNcsLast nEnd n csqMin nMin =
     (if n < nEnd then
        (if iOrd (ls ! nat n) \<noteq> -1 then closeInWin_loop K ls ptNcsLast nEnd (n + 1) csqMin nMin
         else if ChordSq3 K ptNcsLast (Us8ToNcs K (ptUs8 (ls ! nat n))) < csqMin
           then closeInWin_loop K ls ptNcsLast nEnd (n + 1)
                  (ChordSq3 K ptNcsLast (Us8ToNcs K (ptUs8 (ls ! nat n)))) n
           else closeInWin_loop K ls ptNcsLast nEnd (n + 1) csqMin nMin)
      else nMin)"
  by pat_completeness auto
termination
  by (relation "measure (\<lambda>(K, ls, ptNcsLast, nEnd, n, csqMin, nMin). nat (nEnd - n))") auto

declare closeInWin_loop.simps [simp del]

text \<open>\<^verbatim>\<open>closeInWin\<close> (lines 175-201). The window bounds are clamped to the array, so the
  loop reads inside it; the read of \<^verbatim>\<open>locs[nLast]\<close> is inside the array only for a pivot
  that is an index of it.\<close>

definition closeInWin ::
  "('t, 'v, 'd::linorder) nemo \<Rightarrow> 't engine \<Rightarrow> int \<Rightarrow> failure + (int \<times> 't engine)" where
  "closeInWin K s nLast =
     (let nStart = nLast - iWin s;
          nStart = (if nStart < 0 then 0 else nStart);
          nEnd = nLast + iWin s;
          nEnd = (if nEnd > lcnCnt s then lcnCnt s else nEnd)
      in if nLast < 0 \<or> lcnCnt s \<le> nLast then Inl OutOfBounds
         else
           let ptNcsLast = Us8ToNcs K (ptUs8 (locs s ! nat nLast));
               nMin = closeInWin_loop K (locs s) ptNcsLast nEnd nStart (DOUBLE_HUGE K) (-1)
           in Inr (nMin, s\<lparr>nInsideWin := nInsideWin s + 1\<rparr>))"

subsection \<open>closeOutWin\<close>

text \<open>The \<^verbatim>\<open>while\<close> loop of \<^verbatim>\<open>closeOutWin\<close> (lines 215-224): in one round the low
  boundary is tested and decremented while it is positive, then the high boundary is
  tested and incremented while it is below the count. A tested index outside the array is
  \<open>OutOfBounds\<close>.\<close>

function closeOutWin_loop :: "'t loc list \<Rightarrow> int \<Rightarrow> int \<Rightarrow> failure + int" where
  "closeOutWin_loop ls nLow nHigh =
     (if nLow > 0 \<or> nHigh < int (length ls) then
        (if nLow > 0 \<and> int (length ls) \<le> nLow then Inl OutOfBounds
         else if nLow > 0 \<and> iOrd (ls ! nat nLow) = -1 then Inr nLow
         else if nHigh < int (length ls) \<and> nHigh < 0 then Inl OutOfBounds
         else if nHigh < int (length ls) \<and> iOrd (ls ! nat nHigh) = -1 then Inr nHigh
         else closeOutWin_loop ls
                (if nLow > 0 then nLow - 1 else nLow)
                (if nHigh < int (length ls) then nHigh + 1 else nHigh))
      else Inr (-1))"
  by pat_completeness auto
termination
  by (relation "measure (\<lambda>(ls, nLow, nHigh). nat nLow + nat (int (length ls) - nHigh))") auto

declare closeOutWin_loop.simps [simp del]

text \<open>\<^verbatim>\<open>closeOutWin\<close> (lines 207-226).\<close>

definition closeOutWin :: "'t engine \<Rightarrow> int \<Rightarrow> failure + (int \<times> 't engine)" where
  "closeOutWin s nLast =
     (let nLow = nLast - iWin s;
          nLow = (if nLow < 0 then 0 else nLow);
          nHigh = nLast + iWin s;
          nHigh = (if nHigh > lcnCnt s then lcnCnt s else nHigh)
      in case closeOutWin_loop (locs s) nLow nHigh of
           Inl e \<Rightarrow> Inl e
         | Inr n \<Rightarrow> Inr (n, s\<lparr>nOutsideWin := nOutsideWin s + 1\<rparr>))"

subsection \<open>The itinerary loop of main\<close>

text \<open>The store \<^verbatim>\<open>locs[n].iOrd = k\<close>, logged in the ghost field.\<close>

definition visit :: "'t engine \<Rightarrow> int \<Rightarrow> int \<Rightarrow> 't engine" where
  "visit s n k =
     s\<lparr>locs := (locs s)[nat n := (locs s ! nat n)\<lparr>iOrd := k\<rparr>],
       orderLog := orderLog s @ [(n, iOrd (locs s ! nat n), k)]\<rparr>"

text \<open>Lines 126-129: the search inside the window, the search outside it when the
  first finds nothing, and the \<^verbatim>\<open>errorExit\<close> with "Program assertion?" when the second
  finds nothing either.\<close>

definition nextLocation ::
  "('t, 'v, 'd::linorder) nemo \<Rightarrow> 't engine \<Rightarrow> int \<Rightarrow> failure + (int \<times> 't engine)" where
  "nextLocation K s nPrev =
     (case closeInWin K s nPrev of
        Inl e \<Rightarrow> Inl e
      | Inr (nNext, s1) \<Rightarrow>
          (case (if nNext = -1 then closeOutWin s1 nPrev else Inr (nNext, s1)) of
             Inl e \<Rightarrow> Inl e
           | Inr (nNext, s2) \<Rightarrow>
               if nNext = -1 then Inl InvariantViolation else Inr (nNext, s2)))"

text \<open>The \<^verbatim>\<open>while (k < lcnCnt)\<close> loop (lines 124-132). Both searches return \<open>-1\<close> or
  an index of the array, so the store of line 130 is inside the array.\<close>

function main_loop ::
  "('t, 'v, 'd::linorder) nemo \<Rightarrow> 't engine \<Rightarrow> int \<Rightarrow> int \<Rightarrow> failure + 't engine" where
  "main_loop K s nPrev k =
     (if k < lcnCnt s then
        (case nextLocation K s nPrev of
           Inl e \<Rightarrow> Inl e
         | Inr (nNext, s') \<Rightarrow> main_loop K (visit s' nNext k) nNext (k + 1))
      else Inr s)"
  by pat_completeness auto
termination
  by (relation "measure (\<lambda>(K, s, nPrev, k). nat (lcnCnt s - k))")
     (auto simp: nextLocation_def closeInWin_def closeOutWin_def visit_def lcnCnt_def Let_def
           split: sum.splits if_splits prod.splits)

declare main_loop.simps [simp del]

text \<open>Lines 119-132: the counters are reset, location 0 is the start of the itinerary,
  and the loop runs from \<open>k = 1\<close>. On an empty array the store \<^verbatim>\<open>locs[0].iOrd = 0\<close> is
  outside it.\<close>

definition main_itinerary ::
  "('t, 'v, 'd::linorder) nemo \<Rightarrow> 't engine \<Rightarrow> failure + 't engine" where
  "main_itinerary K s =
     (let s0 = s\<lparr>nInsideWin := 0, nOutsideWin := 0\<rparr>
      in if lcnCnt s0 < 1 then Inl OutOfBounds
         else main_loop K (visit s0 0 0) 0 1)"

subsection \<open>Loading the locations\<close>

text \<open>Lines 107-115: one element per record read, marked unvisited. The field \<^verbatim>\<open>unused\<close>
  keeps whatever \<^verbatim>\<open>malloc\<close> returned, given by \<open>junk\<close>.\<close>

definition loadLocs :: "(nat \<Rightarrow> int) \<Rightarrow> 't list \<Rightarrow> 't loc list" where
  "loadLocs junk recs =
     map (\<lambda>n. \<lparr>iOrd = -1, unused = junk n, ptUs8 = recs ! n\<rparr>) [0..<length recs]"

text \<open>The module state when the itinerary code starts: the loaded array, the half
  window, and the counters as static storage has them.\<close>

definition loaded :: "(nat \<Rightarrow> int) \<Rightarrow> int \<Rightarrow> 't list \<Rightarrow> 't engine" where
  "loaded junk halfWin recs =
     \<lparr>locs = loadLocs junk recs, iWin = halfWin, nInsideWin = 0, nOutsideWin = 0, orderLog = []\<rparr>"

subsection \<open>Sorting for output\<close>

text \<open>\<^verbatim>\<open>compIntsIx0\<close> (lines 232-235): the difference of the first \<^verbatim>\<open>int\<close> of the two
  structures, which is \<^verbatim>\<open>iOrd\<close>.\<close>

definition compIntsIx0 :: "'t loc \<Rightarrow> 't loc \<Rightarrow> int" where
  "compIntsIx0 p1 p2 = iOrd p1 - iOrd p2"

text \<open>\<^verbatim>\<open>qsort\<close> is the C library's and leaves the algorithm open; it is modelled by
  insertion into an ordered list, driven by the comparison function. An element goes in
  front of the first element it does not compare greater than.\<close>

fun qsort_place :: "('a \<Rightarrow> 'a \<Rightarrow> int) \<Rightarrow> 'a \<Rightarrow> 'a list \<Rightarrow> 'a list" where
  "qsort_place cmp a [] = [a]"
| "qsort_place cmp a (b # bs) = (if cmp a b \<le> 0 then a # b # bs else b # qsort_place cmp a bs)"

fun qsort :: "('a \<Rightarrow> 'a \<Rightarrow> int) \<Rightarrow> 'a list \<Rightarrow> 'a list" where
  "qsort cmp [] = []"
| "qsort cmp (a # as) = qsort_place cmp a (qsort cmp as)"

subsection \<open>The checks of main before loading\<close>

text \<open>What \<^verbatim>\<open>main\<close> is started with: the argument count, the size of the input file
  (\<open>None\<close> when it cannot be opened for reading), whether the output file can be opened for
  writing, whether \<^verbatim>\<open>fseek\<close> succeeds, and the value \<^verbatim>\<open>atoi(argv[3])\<close>. File sizes are
  below \<open>2 ^ 31\<close>: \<^verbatim>\<open>ftell\<close>'s result is stored in an \<^verbatim>\<open>int\<close>.\<close>

record env =
  argc :: int
  inputSize :: "nat option"
  outputWritable :: bool
  seekOk :: bool
  winArg :: int

text \<open>The file operations a run has performed. \<^verbatim>\<open>fopen(argv[2], "wb")\<close> creates the
  output file, or truncates an existing one.\<close>

datatype io_event = OpenInput | CreateOutput | CloseOutput | SeekInput

text \<open>Lines 75-102, with the size of a record \<^verbatim>\<open>sizeof(nemoPtUs8)\<close> as a parameter.
  The result is the list of file operations performed, and either the failure that ended
  the run or the half window \<^verbatim>\<open>iWin\<close> and the record count \<^verbatim>\<open>lcnCnt\<close>. The remainder of
  line 101 is taken by \<^verbatim>\<open>lcnCnt\<close>; for \<^verbatim>\<open>lcnCnt = 0\<close> it is undefined.\<close>

definition main_setup :: "nat \<Rightarrow> env \<Rightarrow> io_event list \<times> (failure + int \<times> int)" where
  "main_setup sizeofUs8 e =
     (if argc e < 4 then ([], Inl ConfigurationError)
      else case inputSize e of
        None \<Rightarrow> ([], Inl IOError)
      | Some fsize \<Rightarrow>
          if \<not> outputWritable e then ([OpenInput], Inl IOError)
          else
            let n = winArg e in
            if n < MIN_WIN \<or> n > MAX_WIN
            then ([OpenInput, CreateOutput, CloseOutput], Inl ConfigurationError)
            else
              let halfWin = c_div n 2 in
              if \<not> seekOk e then ([OpenInput, CreateOutput, CloseOutput], Inl IOError)
              else
                let inFileSize = int fsize;
                    cnt = c_div inFileSize (int sizeofUs8)
                in if cnt = 0
                   then ([OpenInput, CreateOutput, CloseOutput, SeekInput], Inl DivideByZero)
                   else if c_mod inFileSize cnt \<noteq> 0
                   then ([OpenInput, CreateOutput, CloseOutput, SeekInput],
                         Inl (FormatError inFileSize (int sizeofUs8)))
                   else ([OpenInput, CreateOutput, CloseOutput, SeekInput], Inr (halfWin, cnt)))"

subsection \<open>The scan of the brute-force baseline\<close>

text \<open>The inner \<^verbatim>\<open>for\<close> loop of \<^verbatim>\<open>nearNextP8bBruteForce.c\<close> (lines 82-89) over the array
  \<^verbatim>\<open>locations\<close> of coordinates, from index \<open>nn\<close>.\<close>

function bruteForce_loop ::
  "('t, 'v, 'd::linorder) nemo \<Rightarrow> 't list \<Rightarrow> 'v \<Rightarrow> int \<Rightarrow> 'd \<Rightarrow> int \<Rightarrow> int" where
  "bruteForce_loop K locations ptNcs nn nld nx =
     (if nn < int (length locations) then
        (if ChordSq3 K ptNcs (Us8ToNcs K (locations ! nat nn)) < nld
         then bruteForce_loop K locations ptNcs (nn + 1)
                (ChordSq3 K ptNcs (Us8ToNcs K (locations ! nat nn))) nn
         else bruteForce_loop K locations ptNcs (nn + 1) nld nx)
      else nx)"
  by pat_completeness auto
termination
  by (relation "measure (\<lambda>(K, locations, ptNcs, nn, nld, nx). nat (int (length locations) - nn))")
     auto

declare bruteForce_loop.simps [simp del]

text \<open>Lines 79-89: the nearest location after the head \<open>n\<close> of the itinerary.\<close>

definition bruteForce_next :: "('t, 'v, 'd::linorder) nemo \<Rightarrow> 't list \<Rightarrow> int \<Rightarrow> int" where
  "bruteForce_next K locations n =
     bruteForce_loop K locations (Us8ToNcs K (locations ! nat n)) (n + 1) (DOUBLE_HUGE K) (-1)"

subsection \<open>Vocabulary of the properties\<close>

text \<open>\<open>candIn ls lo hi m\<close>: \<open>m\<close> is an unvisited location with index in \<open>[lo, hi)\<close>.\<close>

definition candIn :: "'t loc list \<Rightarrow> int \<Rightarrow> int \<Rightarrow> int \<Rightarrow> bool" where
  "candIn ls lo hi m \<longleftrightarrow> lo \<le> m \<and> m < hi \<and> iOrd (ls ! nat m) = -1"

text \<open>The proxy distance of the locations at indices \<open>p\<close> and \<open>n\<close>, and the same from a
  converted point.\<close>

definition csqTo :: "('t, 'v, 'd) nemo \<Rightarrow> 't loc list \<Rightarrow> 'v \<Rightarrow> int \<Rightarrow> 'd" where
  "csqTo K ls pt m = ChordSq3 K pt (Us8ToNcs K (ptUs8 (ls ! nat m)))"

definition proxy :: "('t, 'v, 'd) nemo \<Rightarrow> 't loc list \<Rightarrow> int \<Rightarrow> int \<Rightarrow> 'd" where
  "proxy K ls p n = ChordSq3 K (Us8ToNcs K (ptUs8 (ls ! nat p))) (Us8ToNcs K (ptUs8 (ls ! nat n)))"

text \<open>The window of a pivot \<open>p\<close>: \<open>[max 0 (p - halfWidth), min N (p + halfWidth))\<close>.\<close>

definition winStart :: "'t engine \<Rightarrow> int \<Rightarrow> int" where
  "winStart s p = max 0 (p - iWin s)"

definition winEnd :: "'t engine \<Rightarrow> int \<Rightarrow> int" where
  "winEnd s p = min (lcnCnt s) (p + iWin s)"

text \<open>Every proxy distance between two locations of the store is below
  \<^verbatim>\<open>NEMO_DOUBLE_HUGE\<close>, the start value of the running minimum. The squared chord of two
  unit vectors is at most 4.\<close>

definition belowHuge :: "('t, 'v, 'd::linorder) nemo \<Rightarrow> 't loc list \<Rightarrow> bool" where
  "belowHuge K ls \<longleftrightarrow>
     (\<forall>a \<in> set ls. \<forall>b \<in> set ls.
        ChordSq3 K (Us8ToNcs K (ptUs8 a)) (Us8ToNcs K (ptUs8 b)) < DOUBLE_HUGE K)"

text \<open>The unbounded nearest-neighbour search, in the specification's words: all indices
  \<open>0, \<dots>, N - 1\<close> in increasing order, visited locations skipped, a candidate taken when
  its proxy distance is strictly less than the least so far.\<close>

definition unboundedStep ::
  "('t, 'v, 'd::linorder) nemo \<Rightarrow> 't loc list \<Rightarrow> int \<Rightarrow> nat \<Rightarrow> 'd \<times> int \<Rightarrow> 'd \<times> int" where
  "unboundedStep K ls p n best =
     (if iOrd (ls ! n) = -1 \<and> proxy K ls p (int n) < fst best
      then (proxy K ls p (int n), int n) else best)"

definition nearestUnbounded :: "('t, 'v, 'd::linorder) nemo \<Rightarrow> 't loc list \<Rightarrow> int \<Rightarrow> int" where
  "nearestUnbounded K ls p =
     snd (fold (unboundedStep K ls p) [0..<length ls] (DOUBLE_HUGE K, -1))"

text \<open>The order in which the outward search tests indices, in the specification's
  words: from \<open>low\<close> and \<open>high\<close>, round \<open>t\<close> tests \<open>low - t\<close> if it is positive and then
  \<open>high + t\<close> if it is below \<open>N\<close>.\<close>

definition probeRound :: "int \<Rightarrow> int \<Rightarrow> int \<Rightarrow> nat \<Rightarrow> int list" where
  "probeRound N low high t =
     (if low - int t > 0 then [low - int t] else []) @
     (if high + int t < N then [high + int t] else [])"

definition probeOrder :: "int \<Rightarrow> int \<Rightarrow> int \<Rightarrow> int list" where
  "probeOrder N low high =
     concat (map (probeRound N low high) [0..<max (nat low) (nat (N - high))])"

text \<open>The first unvisited index of a list of indices, or \<open>-1\<close>.\<close>

definition firstUnvisited :: "'t loc list \<Rightarrow> int list \<Rightarrow> int" where
  "firstUnvisited ls ns =
     (case filter (\<lambda>n. iOrd (ls ! nat n) = -1) ns of [] \<Rightarrow> -1 | n # _ \<Rightarrow> n)"

text \<open>\<open>outCand ls low high n\<close>: \<open>n\<close> is an unvisited location among the indices the outward
  search can test from the boundaries \<open>low\<close> and \<open>high\<close>: \<open>1, \<dots>, low\<close> and
  \<open>high, \<dots>, N - 1\<close>.\<close>

definition outCand :: "'t loc list \<Rightarrow> int \<Rightarrow> int \<Rightarrow> int \<Rightarrow> bool" where
  "outCand ls low high n \<longleftrightarrow>
     iOrd (ls ! nat n) = -1 \<and> ((1 \<le> n \<and> n \<le> low) \<or> (high \<le> n \<and> n < int (length ls)))"

subsection \<open>Concrete inputs\<close>

text \<open>A one-dimensional stand-in for the Nemo library: coordinates are integers, the
  proxy distance is the absolute difference.\<close>

definition exK :: "(int, int, int) nemo" where
  "exK = \<lparr>Us8ToNcs = (\<lambda>x. x), ChordSq3 = (\<lambda>a b. \<bar>a - b\<bar>), DOUBLE_HUGE = 1000\<rparr>"

definition exStore :: "int \<Rightarrow> (int \<times> int) list \<Rightarrow> int engine" where
  "exStore h xs =
     \<lparr>locs = map (\<lambda>(k, c). \<lparr>iOrd = k, unused = 0, ptUs8 = c\<rparr>) xs,
      iWin = h, nInsideWin = 0, nOutsideWin = 0, orderLog = []\<rparr>"

text \<open>A run with four arguments, both files accessible, an input file of \<open>fsize\<close> bytes
  and the window argument \<open>w\<close>.\<close>

definition exEnv :: "nat \<Rightarrow> int \<Rightarrow> env" where
  "exEnv fsize w = \<lparr>argc = 4, inputSize = Some fsize, outputWritable = True, seekOk = True, winArg = w\<rparr>"

definition exStoreA :: "int engine" where
  "exStoreA = exStore 2 [(0, 10), (1, 1), (-1, 2), (-1, 9), (-1, 8)]"




text \<open>A completed store: the order values are \<open>0, \<dots>, N - 1\<close>, each once.\<close>

definition completed :: "'t loc list \<Rightarrow> bool" where
  "completed ls \<longleftrightarrow> mset (map iOrd ls) = mset (map int [0..<length ls])"

text \<open>The invariant of the itinerary loop at its head, with the last visited index
  \<open>nPrev\<close> and the counter \<open>k\<close>: the log holds the \<open>k\<close> stores made so far, of the values
  \<open>0, \<dots>, k - 1\<close> in this order, to distinct locations that were unvisited before and
  still hold the value stored; all other locations are unvisited; location 0 is among
  the visited.\<close>

definition itinInv :: "'t engine \<Rightarrow> int \<Rightarrow> int \<Rightarrow> bool" where
  "itinInv s nPrev k \<longleftrightarrow>
     0 \<le> nPrev \<and> nPrev < lcnCnt s \<and> 1 \<le> k \<and> k \<le> lcnCnt s \<and>
     map (snd \<circ> snd) (orderLog s) = map int [0..<nat k] \<and>
     distinct (map fst (orderLog s)) \<and>
     (\<forall>e \<in> set (orderLog s).
        0 \<le> fst e \<and> fst e < lcnCnt s \<and> fst (snd e) = -1 \<and> 0 \<le> snd (snd e) \<and>
        iOrd (locs s ! nat (fst e)) = snd (snd e)) \<and>
     (\<forall>i. 0 \<le> i \<and> i < lcnCnt s \<and> i \<notin> fst ` set (orderLog s) \<longrightarrow> iOrd (locs s ! nat i) = -1) \<and>
     0 \<in> fst ` set (orderLog s)"


definition exStoreF :: "int engine" where
  "exStoreF = exStore 8 [(0, 10), (-1, 1), (-1, 2), (-1, 9), (-1, 8)]"

definition exStoreG :: "int engine" where
  "exStoreG = exStore 2 [(0, 10), (3, 1), (1, 2), (2, 9), (4, 8)]"

definition exStoreH :: "int engine" where
  "exStoreH = exStore 1 [(0, 10), (-1, 1), (-1, 2)]"

definition exSortedG :: "int loc list" where
  "exSortedG = locs (exStore 2 [(0, 10), (1, 2), (2, 9), (3, 1), (4, 8)])"

section \<open>Properties\<close>

subsection \<open>The checks of main\<close>

lemma c_div_nonneg: "0 \<le> a \<Longrightarrow> 0 \<le> b \<Longrightarrow> c_div a b = a div b"
  by (cases "a = 0"; cases "b = 0") (simp_all add: c_div_def)

lemma c_mod_nonneg: "0 \<le> a \<Longrightarrow> 0 \<le> b \<Longrightarrow> c_mod a b = a mod b"
  by (simp add: c_mod_def c_div_nonneg minus_mult_div_eq_mod)

lemma c_mod_count_multiple:
  assumes "rs dvd fsize"
  shows "c_mod (int fsize) (c_div (int fsize) (int rs)) = 0"
proof -
  obtain q where q: "fsize = rs * q" using assms by (elim dvdE)
  show ?thesis
  proof (cases "rs = 0")
    case True
    then show ?thesis using q by (simp add: c_mod_nonneg c_div_nonneg)
  next
    case False
    then have "int fsize div int rs = int q" using q by simp
    then show ?thesis using q by (simp add: c_mod_nonneg c_div_nonneg)
  qed
qed




text \<open>Claim C7, as amended. Both files are opened before the window argument is read.
  With at least three arguments and both files accessible: a window size outside
  \<open>[16, 32000]\<close> ends the run with the configuration error after the input file was
  opened and the output file created and closed, and before the input is sought or read;
  a window size inside the bounds never gives the configuration error, a run that passes
  the checks has the half window \<open>w div 2\<close>, and the run does pass them when the seek
  succeeds and the input is a positive number of whole records.\<close>

theorem main_setup_window:
  assumes "4 \<le> argc e" "inputSize e = Some fsize" "outputWritable e"
  shows "(winArg e < MIN_WIN \<or> MAX_WIN < winArg e \<longrightarrow>
            main_setup rs e = ([OpenInput, CreateOutput, CloseOutput], Inl ConfigurationError)) \<and>
         (MIN_WIN \<le> winArg e \<and> winArg e \<le> MAX_WIN \<longrightarrow>
            snd (main_setup rs e) \<noteq> Inl ConfigurationError \<and>
            (\<forall>h n. snd (main_setup rs e) = Inr (h, n) \<longrightarrow> h = winArg e div 2) \<and>
            (seekOk e \<and> 0 < fsize \<and> rs dvd fsize \<longrightarrow>
               snd (main_setup rs e) = Inr (winArg e div 2, int (fsize div rs))))"
proof -
  have run: "snd (main_setup rs e) = Inr (winArg e div 2, int (fsize div rs))"
    if w: "MIN_WIN \<le> winArg e" "winArg e \<le> MAX_WIN" and ok: "seekOk e" "0 < fsize" "rs dvd fsize"
  proof -
    have "rs \<le> fsize" "0 < rs" using ok(2,3) by (auto elim!: dvdE)
    then have "0 < fsize div rs" by (simp add: div_greater_zero_iff)
    then have "int (fsize div rs) \<noteq> 0" by simp
    then have cnt: "c_div (int fsize) (int rs) = int (fsize div rs)" "c_div (int fsize) (int rs) \<noteq> 0"
      by (simp_all only: c_div_nonneg of_nat_0_le_iff zdiv_int not_False_eq_True)
    have "0 \<le> winArg e" using w(1) by (simp add: MIN_WIN_def)
    then have half: "c_div (winArg e) 2 = winArg e div 2" by (simp add: c_div_nonneg)
    show ?thesis
      using assms w ok cnt half c_mod_count_multiple[OF ok(3)]
      by (simp add: main_setup_def Let_def)
  qed
  show ?thesis
    using assms run
    by (auto simp: main_setup_def Let_def c_div_nonneg MIN_WIN_def MAX_WIN_def split: if_splits)
qed

theorem main_setup_window_witness:
  "4 \<le> argc (exEnv 80 4) \<and> inputSize (exEnv 80 4) = Some 80 \<and> outputWritable (exEnv 80 4) \<and>
   winArg (exEnv 80 4) < MIN_WIN \<and>
   main_setup 8 (exEnv 80 4) = ([OpenInput, CreateOutput, CloseOutput], Inl ConfigurationError) \<and>
   4 \<le> argc (exEnv 80 1001) \<and> inputSize (exEnv 80 1001) = Some 80 \<and> outputWritable (exEnv 80 1001) \<and>
   MIN_WIN \<le> winArg (exEnv 80 1001) \<and> winArg (exEnv 80 1001) \<le> MAX_WIN \<and>
   seekOk (exEnv 80 1001) \<and> (0::nat) < 80 \<and> (8::nat) dvd 80 \<and>
   snd (main_setup 8 (exEnv 80 1001)) \<noteq> Inl ConfigurationError \<and>
   snd (main_setup 8 (exEnv 80 1001)) = Inr (winArg (exEnv 80 1001) div 2, int (80 div 8))"
proof -
  have a: "4 \<le> argc (exEnv 80 4)" "inputSize (exEnv 80 4) = Some 80" "outputWritable (exEnv 80 4)"
    and b: "4 \<le> argc (exEnv 80 1001)" "inputSize (exEnv 80 1001) = Some 80" "outputWritable (exEnv 80 1001)"
    by (simp_all add: exEnv_def)
  have w: "winArg (exEnv 80 4) < MIN_WIN"
    and v: "MIN_WIN \<le> winArg (exEnv 80 1001)" "winArg (exEnv 80 1001) \<le> MAX_WIN"
    and k: "seekOk (exEnv 80 1001)" "(0::nat) < 80" "(8::nat) dvd 80"
    by (simp_all add: exEnv_def MIN_WIN_def MAX_WIN_def)
  have 1: "main_setup 8 (exEnv 80 4) = ([OpenInput, CreateOutput, CloseOutput], Inl ConfigurationError)"
    using main_setup_window[OF a, of 8] w by blast
  have 2: "snd (main_setup 8 (exEnv 80 1001)) \<noteq> Inl ConfigurationError"
    and 3: "snd (main_setup 8 (exEnv 80 1001)) = Inr (winArg (exEnv 80 1001) div 2, int (80 div 8))"
    using main_setup_window[OF b, of 8] v k by blast+
  show ?thesis
    using a b w v k 1 2 3 by (intro conjI)
qed

theorem main_setup_window_counterexample:
  "winArg (exEnv 80 4) < MIN_WIN \<and>
   main_setup 8 (exEnv 80 4) = ([OpenInput, CreateOutput, CloseOutput], Inl ConfigurationError)"
  by (simp add: main_setup_def exEnv_def MIN_WIN_def MAX_WIN_def)

text \<open>Claim C10. For an input file shorter than one record (the empty file included)
  the record count is 0 and the size check of line 101 takes a remainder by zero: the run
  ends in undefined behaviour, not in the format error.\<close>

theorem main_setup_short_file:
  assumes "4 \<le> argc e" "inputSize e = Some fsize" "outputWritable e" "seekOk e"
      and "MIN_WIN \<le> winArg e" "winArg e \<le> MAX_WIN"
      and "fsize < rs"
  shows "c_div (int fsize) (int rs) = 0 \<and>
         main_setup rs e = ([OpenInput, CreateOutput, CloseOutput, SeekInput], Inl DivideByZero)"
proof -
  have "c_div (int fsize) (int rs) = 0" using assms(7) by (simp add: c_div_nonneg)
  then show ?thesis using assms by (simp add: main_setup_def Let_def)
qed

theorem main_setup_short_file_witness:
  "4 \<le> argc (exEnv 5 1000) \<and> inputSize (exEnv 5 1000) = Some 5 \<and> outputWritable (exEnv 5 1000) \<and>
   seekOk (exEnv 5 1000) \<and> MIN_WIN \<le> winArg (exEnv 5 1000) \<and> winArg (exEnv 5 1000) \<le> MAX_WIN \<and>
   (5::nat) < 8 \<and> c_div (int 5) (int 8) = 0 \<and>
   main_setup 8 (exEnv 5 1000) = ([OpenInput, CreateOutput, CloseOutput, SeekInput], Inl DivideByZero)"
proof -
  have h: "4 \<le> argc (exEnv 5 1000)" "inputSize (exEnv 5 1000) = Some 5"
    "outputWritable (exEnv 5 1000)" "seekOk (exEnv 5 1000)"
    "MIN_WIN \<le> winArg (exEnv 5 1000)" "winArg (exEnv 5 1000) \<le> MAX_WIN" "(5::nat) < 8"
    by (simp_all add: exEnv_def MIN_WIN_def MAX_WIN_def)
  show ?thesis using main_setup_short_file[OF h] h by simp
qed

subsection \<open>closeInWin\<close>

lemma candIn_step:
  "candIn ls n hi m \<longleftrightarrow> (m = n \<and> n < hi \<and> iOrd (ls ! nat n) = -1) \<or> candIn ls (n + 1) hi m"
proof -
  have "n \<le> m \<longleftrightarrow> m = n \<or> n + 1 \<le> m" by linarith
  then show ?thesis unfolding candIn_def by blast
qed

lemma candIn_empty: "\<not> n < hi \<Longrightarrow> \<not> candIn ls n hi m"
  by (simp add: candIn_def)

lemma closeInWin_loop_spec:
  fixes K :: "('t, 'v, 'd::linorder) nemo"
  shows "(if \<exists>m. candIn ls n nEnd m \<and> csqTo K ls pt m < c
      then candIn ls n nEnd (closeInWin_loop K ls pt nEnd n c nm) \<and>
           csqTo K ls pt (closeInWin_loop K ls pt nEnd n c nm) < c \<and>
            (\<forall>m. candIn ls n nEnd m \<longrightarrow>
                 csqTo K ls pt (closeInWin_loop K ls pt nEnd n c nm) \<le> csqTo K ls pt m \<and>
                 (m < closeInWin_loop K ls pt nEnd n c nm \<longrightarrow>
                    csqTo K ls pt (closeInWin_loop K ls pt nEnd n c nm) < csqTo K ls pt m))
      else closeInWin_loop K ls pt nEnd n c nm = nm)"
proof (induction K ls pt nEnd n c nm rule: closeInWin_loop.induct)
  case (1 K ls pt nEnd n c nm)
  show ?case
  proof (cases "n < nEnd")
    case False
    then show ?thesis
      by (simp add: closeInWin_loop.simps[of K ls pt nEnd n] candIn_empty)
  next
    case True
    show ?thesis
    proof (cases "iOrd (ls ! nat n) \<noteq> -1")
      case vis: True
      have eq: "closeInWin_loop K ls pt nEnd n c nm = closeInWin_loop K ls pt nEnd (n + 1) c nm"
        using True vis by (simp add: closeInWin_loop.simps[of K ls pt nEnd n])
      have U: "\<And>m. candIn ls n nEnd m \<longleftrightarrow> candIn ls (n + 1) nEnd m"
        using vis candIn_step[of ls n nEnd] by blast
      show ?thesis
        using "1.IH"(1)[OF True vis] unfolding eq U .
    next
      case unv: False
      then have unv': "iOrd (ls ! nat n) = -1" by simp
      have U: "\<And>m. candIn ls n nEnd m \<longleftrightarrow> m = n \<or> candIn ls (n + 1) nEnd m"
        using unv' True candIn_step[of ls n nEnd] by blast
      have nlt: "\<And>m. candIn ls (n + 1) nEnd m \<Longrightarrow> n < m"
        by (simp add: candIn_def)
      show ?thesis
      proof (cases "csqTo K ls pt n < c")
        case less: True
        have eq: "closeInWin_loop K ls pt nEnd n c nm
                  = closeInWin_loop K ls pt nEnd (n + 1) (csqTo K ls pt n) n"
          using True unv less by (simp add: closeInWin_loop.simps[of K ls pt nEnd n] csqTo_def)
        have less': "ChordSq3 K pt (Us8ToNcs K (ptUs8 (ls ! nat n))) < c"
          using less by (simp add: csqTo_def)
        note IH = "1.IH"(2)[OF True unv less', folded csqTo_def]
        show ?thesis
          using IH less unfolding eq U
          by (auto split: if_splits dest: nlt)
      next
        case ge: False
        have eq: "closeInWin_loop K ls pt nEnd n c nm = closeInWin_loop K ls pt nEnd (n + 1) c nm"
          using True unv ge by (simp add: closeInWin_loop.simps[of K ls pt nEnd n] csqTo_def)
        have ge': "\<not> ChordSq3 K pt (Us8ToNcs K (ptUs8 (ls ! nat n))) < c"
          using ge by (simp add: csqTo_def)
        note IH = "1.IH"(3)[OF True unv ge']
        show ?thesis
          using IH ge unfolding eq U
          by (auto split: if_splits dest: nlt)
      qed
    qed
  qed
qed


lemma closeInWin_eq:
  "0 \<le> p \<Longrightarrow> p < lcnCnt s \<Longrightarrow>
   closeInWin K s p =
     Inr (closeInWin_loop K (locs s) (Us8ToNcs K (ptUs8 (locs s ! nat p))) (winEnd s p) (winStart s p)
            (DOUBLE_HUGE K) (-1),
          s\<lparr>nInsideWin := nInsideWin s + 1\<rparr>)"
  by (simp add: closeInWin_def winStart_def winEnd_def Let_def max_def min_def not_less)

lemma candIn_window_bounds:
  "candIn (locs s) (winStart s p) (winEnd s p) m \<Longrightarrow> 0 \<le> m \<and> m < lcnCnt s"
  by (simp add: candIn_def winStart_def winEnd_def)

lemma belowHuge_proxy:
  assumes "belowHuge K ls" "0 \<le> p" "p < int (length ls)" "0 \<le> m" "m < int (length ls)"
  shows "proxy K ls p m < DOUBLE_HUGE K"
proof -
  have "ls ! nat p \<in> set ls" "ls ! nat m \<in> set ls"
    using assms by (simp_all add: nat_less_iff)
  then show ?thesis using assms(1) by (simp add: belowHuge_def proxy_def)
qed

lemma closeInWin_minimum_aux:
  fixes K :: "('t, 'v, 'd::linorder) nemo"
  assumes p: "0 \<le> p" "p < lcnCnt s" and huge: "belowHuge K (locs s)"
  defines "r \<equiv> closeInWin_loop K (locs s) (Us8ToNcs K (ptUs8 (locs s ! nat p))) (winEnd s p) (winStart s p)
            (DOUBLE_HUGE K) (-1)"
  shows "(r = -1 \<longleftrightarrow> \<not> (\<exists>m. candIn (locs s) (winStart s p) (winEnd s p) m))"
    and "r \<noteq> -1 \<Longrightarrow> candIn (locs s) (winStart s p) (winEnd s p) r"
    and "candIn (locs s) (winStart s p) (winEnd s p) m \<Longrightarrow> proxy K (locs s) p r \<le> proxy K (locs s) p m"
    and "candIn (locs s) (winStart s p) (winEnd s p) m \<Longrightarrow> proxy K (locs s) p m = proxy K (locs s) p r \<Longrightarrow> r \<le> m"
proof -
  let ?pt = "Us8ToNcs K (ptUs8 (locs s ! nat p))"
  have px: "\<And>m. csqTo K (locs s) ?pt m = proxy K (locs s) p m"
    by (simp add: csqTo_def proxy_def)
  have lt: "\<And>m. candIn (locs s) (winStart s p) (winEnd s p) m \<Longrightarrow> proxy K (locs s) p m < DOUBLE_HUGE K"
    using belowHuge_proxy[OF huge] p candIn_window_bounds[of s p] by (simp add: lcnCnt_def)
  note spec = closeInWin_loop_spec[of "locs s" "winStart s p" "winEnd s p" K ?pt "DOUBLE_HUGE K" "-1",
      folded r_def, unfolded px]
  show 1: "(r = -1 \<longleftrightarrow> \<not> (\<exists>m. candIn (locs s) (winStart s p) (winEnd s p) m))"
  proof (cases "\<exists>m. candIn (locs s) (winStart s p) (winEnd s p) m")
    case True
    then have "\<exists>m. candIn (locs s) (winStart s p) (winEnd s p) m \<and> proxy K (locs s) p m < DOUBLE_HUGE K"
      using lt by blast
    then have "candIn (locs s) (winStart s p) (winEnd s p) r" using spec by simp
    then have "0 \<le> r" using candIn_window_bounds by blast
    then show ?thesis using True by auto
  next
    case False
    then show ?thesis using spec by simp
  qed
  show 2: "r \<noteq> -1 \<Longrightarrow> candIn (locs s) (winStart s p) (winEnd s p) r"
    using 1 spec lt by (auto split: if_splits)
  show "candIn (locs s) (winStart s p) (winEnd s p) m \<Longrightarrow> proxy K (locs s) p r \<le> proxy K (locs s) p m"
    using spec lt by (auto split: if_splits)
  show "candIn (locs s) (winStart s p) (winEnd s p) m \<Longrightarrow> proxy K (locs s) p m = proxy K (locs s) p r \<Longrightarrow> r \<le> m"
    using spec lt by (fastforce split: if_splits)
qed

text \<open>Claim C2. For a pivot that is an index of the store, and proxy distances below
  \<^verbatim>\<open>NEMO_DOUBLE_HUGE\<close>: \<^verbatim>\<open>closeInWin\<close> returns \<open>-1\<close> exactly when the window
  \<open>[max 0 (p - iWin), min N (p + iWin))\<close> holds no unvisited location; otherwise it returns
  an unvisited index of the window whose proxy distance to the pivot is least, and the
  lowest index among those of equal distance. Its only effect is the counter.\<close>

theorem closeInWin_minimum:
  fixes K :: "('t, 'v, 'd::linorder) nemo"
  assumes "0 \<le> p" "p < lcnCnt s" "belowHuge K (locs s)"
  shows "\<exists>r. closeInWin K s p = Inr (r, s\<lparr>nInsideWin := nInsideWin s + 1\<rparr>) \<and>
           (r = -1 \<longleftrightarrow> \<not> (\<exists>m. candIn (locs s) (winStart s p) (winEnd s p) m)) \<and>
           (r \<noteq> -1 \<longrightarrow>
              candIn (locs s) (winStart s p) (winEnd s p) r \<and>
              (\<forall>m. candIn (locs s) (winStart s p) (winEnd s p) m \<longrightarrow>
                 proxy K (locs s) p r \<le> proxy K (locs s) p m \<and>
                 (proxy K (locs s) p m = proxy K (locs s) p r \<longrightarrow> r \<le> m)))"
  using closeInWin_minimum_aux[OF assms] closeInWin_eq[OF assms(1,2), of K]
  by blast

theorem closeInWin_minimum_witness:
  "0 \<le> (1::int) \<and> 1 < lcnCnt exStoreA \<and> belowHuge exK (locs exStoreA) \<and>
   closeInWin exK exStoreA 1 = Inr (2, exStoreA\<lparr>nInsideWin := nInsideWin exStoreA + 1\<rparr>) \<and>
   (\<exists>r. closeInWin exK exStoreA 1 = Inr (r, exStoreA\<lparr>nInsideWin := nInsideWin exStoreA + 1\<rparr>) \<and>
        (r = -1 \<longleftrightarrow> \<not> (\<exists>m. candIn (locs exStoreA) (winStart exStoreA 1) (winEnd exStoreA 1) m)) \<and>
        (r \<noteq> -1 \<longrightarrow>
           candIn (locs exStoreA) (winStart exStoreA 1) (winEnd exStoreA 1) r \<and>
           (\<forall>m. candIn (locs exStoreA) (winStart exStoreA 1) (winEnd exStoreA 1) m \<longrightarrow>
              proxy exK (locs exStoreA) 1 r \<le> proxy exK (locs exStoreA) 1 m \<and>
              (proxy exK (locs exStoreA) 1 m = proxy exK (locs exStoreA) 1 r \<longrightarrow> r \<le> m))))"
proof -
  have h1: "0 \<le> (1::int)" by simp
  have h2: "1 < lcnCnt exStoreA" by (simp add: exStoreA_def exStore_def lcnCnt_def)
  have h3: "belowHuge exK (locs exStoreA)"
    by (simp add: belowHuge_def exStoreA_def exStore_def exK_def)
  have v: "closeInWin exK exStoreA 1 = Inr (2, exStoreA\<lparr>nInsideWin := nInsideWin exStoreA + 1\<rparr>)"
    by (simp add: closeInWin_def exStoreA_def exStore_def exK_def lcnCnt_def
          closeInWin_loop.simps Let_def)
  show ?thesis
    using closeInWin_minimum[OF h1 h2 h3] h1 h2 h3 v by blast
qed

lemma closeInWin_loop_step:
  fixes K :: "('t, 'v, 'd::linorder) nemo"
  assumes "i < length ls"
  shows "closeInWin_loop K ls (Us8ToNcs K (ptUs8 (ls ! nat p))) (int (length ls)) (int i) c nm =
         closeInWin_loop K ls (Us8ToNcs K (ptUs8 (ls ! nat p))) (int (length ls)) (int (Suc i))
           (fst (unboundedStep K ls p i (c, nm))) (snd (unboundedStep K ls p i (c, nm)))"
proof -
  have lt: "int i < int (length ls)" using assms by simp
  show ?thesis
    using lt
    by (subst closeInWin_loop.simps) (auto simp: unboundedStep_def proxy_def add.commute)
qed

lemma closeInWin_loop_fold:
  fixes K :: "('t, 'v, 'd::linorder) nemo"
  shows "i \<le> length ls \<Longrightarrow>
   closeInWin_loop K ls (Us8ToNcs K (ptUs8 (ls ! nat p))) (int (length ls)) (int i) c nm =
   snd (fold (unboundedStep K ls p) [i..<length ls] (c, nm))"
proof (induction "length ls - i" arbitrary: i c nm)
  case 0
  then show ?case by (simp add: closeInWin_loop.simps[of K ls _ _ "int i"])
next
  case (Suc k)
  then have lt: "i < length ls" and k: "k = length ls - Suc i" and le: "Suc i \<le> length ls" by simp_all
  have up: "[i..<length ls] = i # [Suc i..<length ls]" using lt by (simp add: upt_rec)
  obtain c' nm' where st: "unboundedStep K ls p i (c, nm) = (c', nm')" by fastforce
  show ?case
    unfolding closeInWin_loop_step[OF lt] up
    by (simp only: st fst_conv snd_conv fold_simps Suc.hyps(1)[OF k le])
qed

lemma closeInWin_loop_skip:
  fixes K :: "('t, 'v, 'd::linorder) nemo"
  shows "n \<le> m \<Longrightarrow> m \<le> nEnd \<Longrightarrow> (\<forall>j. n \<le> j \<and> j < m \<longrightarrow> iOrd (ls ! nat j) \<noteq> -1) \<Longrightarrow>
   closeInWin_loop K ls pt nEnd n c nm = closeInWin_loop K ls pt nEnd m c nm"
proof (induction "nat (m - n)" arbitrary: n)
  case 0
  then show ?case by simp
next
  case (Suc k)
  then have lt: "n < m" "n < nEnd" and k: "k = nat (m - (n + 1))" and le: "n + 1 \<le> m" by linarith+
  have v: "iOrd (ls ! nat n) \<noteq> -1" using Suc.prems lt by simp
  have "closeInWin_loop K ls pt nEnd (n + 1) c nm = closeInWin_loop K ls pt nEnd m c nm"
    using Suc.hyps(1)[OF k le Suc.prems(2)] Suc.prems(3) by simp
  then show ?case
    using lt v by (subst closeInWin_loop.simps) simp
qed

lemma closeInWin_loop_bruteForce:
  fixes K :: "('t, 'v, 'd::linorder) nemo"
  shows "0 \<le> n \<Longrightarrow> (\<forall>j. n \<le> j \<and> j < int (length ls) \<longrightarrow> iOrd (ls ! nat j) = -1) \<Longrightarrow>
   closeInWin_loop K ls pt (int (length ls)) n c nm = bruteForce_loop K (map ptUs8 ls) pt n c nm"
proof (induction K ls pt "int (length ls)" n c nm rule: closeInWin_loop.induct)
  case (1 K ls pt n c nm)
  show ?case
  proof (cases "n < int (length ls)")
    case False
    then show ?thesis
      by (subst closeInWin_loop.simps, subst bruteForce_loop.simps) simp
  next
    case True
    then have u: "iOrd (ls ! nat n) = -1" and nth: "map ptUs8 ls ! nat n = ptUs8 (ls ! nat n)"
      using 1(4,5) by (simp_all add: nat_less_iff)
    have rest: "0 \<le> n + 1" "\<forall>j. n + 1 \<le> j \<and> j < int (length ls) \<longrightarrow> iOrd (ls ! nat j) = -1"
      using 1(4,5) by simp_all
    show ?thesis
    proof (cases "ChordSq3 K pt (Us8ToNcs K (ptUs8 (ls ! nat n))) < c")
      case less: True
      have nu: "\<not> iOrd (ls ! nat n) \<noteq> -1" using u by simp
      show ?thesis
        using True u less "1.hyps"(2)[OF True nu less rest]
        by (subst closeInWin_loop.simps, subst bruteForce_loop.simps) (simp add: nth)
    next
      case ge: False
      have nu: "\<not> iOrd (ls ! nat n) \<noteq> -1" using u by simp
      show ?thesis
        using True u ge "1.hyps"(3)[OF True nu ge rest]
        by (subst closeInWin_loop.simps, subst bruteForce_loop.simps) (simp add: nth)
    qed
  qed
qed

text \<open>Claim C5. With a half window of at least \<open>N\<close> the window of every pivot is
  \<open>[0, N)\<close>, and \<^verbatim>\<open>closeInWin\<close> returns what the unbounded search over all indices
  returns. On a store in the shape the brute-force baseline keeps (exactly the locations
  after the pivot unvisited) that is the result of the baseline's own scan.\<close>

theorem closeInWin_unbounded:
  fixes K :: "('t, 'v, 'd::linorder) nemo"
  assumes "0 \<le> p" "p < lcnCnt s" "lcnCnt s \<le> iWin s"
  shows "winStart s p = 0 \<and> winEnd s p = lcnCnt s \<and>
         closeInWin K s p =
           Inr (nearestUnbounded K (locs s) p, s\<lparr>nInsideWin := nInsideWin s + 1\<rparr>) \<and>
         ((\<forall>j. 0 \<le> j \<and> j < lcnCnt s \<longrightarrow> (iOrd (locs s ! nat j) = -1 \<longleftrightarrow> p < j)) \<longrightarrow>
            closeInWin K s p =
              Inr (bruteForce_next K (map ptUs8 (locs s)) p, s\<lparr>nInsideWin := nInsideWin s + 1\<rparr>))"
proof -
  let ?pt = "Us8ToNcs K (ptUs8 (locs s ! nat p))"
  have w: "winStart s p = 0" "winEnd s p = lcnCnt s"
    using assms by (simp_all add: winStart_def winEnd_def)
  have c: "closeInWin K s p =
     Inr (closeInWin_loop K (locs s) ?pt (int (length (locs s))) 0 (DOUBLE_HUGE K) (-1),
          s\<lparr>nInsideWin := nInsideWin s + 1\<rparr>)"
    using closeInWin_eq[OF assms(1,2), of K] w by (simp add: lcnCnt_def)
  have f: "closeInWin_loop K (locs s) ?pt (int (length (locs s))) 0 (DOUBLE_HUGE K) (-1)
           = nearestUnbounded K (locs s) p"
    using closeInWin_loop_fold[of 0 "locs s" K p "DOUBLE_HUGE K" "-1"]
    by (simp add: nearestUnbounded_def)
  have b: "closeInWin_loop K (locs s) ?pt (int (length (locs s))) 0 (DOUBLE_HUGE K) (-1)
           = bruteForce_next K (map ptUs8 (locs s)) p"
    if pre: "\<forall>j. 0 \<le> j \<and> j < lcnCnt s \<longrightarrow> (iOrd (locs s ! nat j) = -1 \<longleftrightarrow> p < j)"
  proof -
    have "closeInWin_loop K (locs s) ?pt (int (length (locs s))) 0 (DOUBLE_HUGE K) (-1)
          = closeInWin_loop K (locs s) ?pt (int (length (locs s))) (p + 1) (DOUBLE_HUGE K) (-1)"
      using assms pre by (intro closeInWin_loop_skip) (auto simp: lcnCnt_def)
    also have "\<dots> = bruteForce_loop K (map ptUs8 (locs s)) ?pt (p + 1) (DOUBLE_HUGE K) (-1)"
      using assms pre by (intro closeInWin_loop_bruteForce) (auto simp: lcnCnt_def)
    also have "\<dots> = bruteForce_next K (map ptUs8 (locs s)) p"
      using assms by (simp add: bruteForce_next_def lcnCnt_def nat_less_iff)
    finally show ?thesis .
  qed
  show ?thesis using w c f b by simp
qed

theorem closeInWin_unbounded_witness:
  "0 \<le> (0::int) \<and> 0 < lcnCnt exStoreF \<and> lcnCnt exStoreF \<le> iWin exStoreF \<and>
   \<not> (\<exists>j. 0 \<le> j \<and> j < lcnCnt exStoreF \<and> (iOrd (locs exStoreF ! nat j) = -1) \<noteq> (0 < j)) \<and>
   winStart exStoreF 0 = 0 \<and> winEnd exStoreF 0 = lcnCnt exStoreF \<and>
   closeInWin exK exStoreF 0 = Inr (3, exStoreF\<lparr>nInsideWin := nInsideWin exStoreF + 1\<rparr>) \<and>
   nearestUnbounded exK (locs exStoreF) 0 = 3 \<and>
   bruteForce_next exK (map ptUs8 (locs exStoreF)) 0 = 3"
proof -
  have h: "0 \<le> (0::int)" "0 < lcnCnt exStoreF" "lcnCnt exStoreF \<le> iWin exStoreF"
    by (simp_all add: exStoreF_def exStore_def lcnCnt_def)
  have b: "\<forall>j. 0 \<le> j \<and> j < lcnCnt exStoreF \<longrightarrow> (iOrd (locs exStoreF ! nat j) = -1 \<longleftrightarrow> 0 < j)"
  proof (intro allI impI)
    fix j :: int
    assume "0 \<le> j \<and> j < lcnCnt exStoreF"
    then have "j = 0 \<or> j = 1 \<or> j = 2 \<or> j = 3 \<or> j = 4"
      by (simp add: exStoreF_def exStore_def lcnCnt_def) arith
    then show "iOrd (locs exStoreF ! nat j) = -1 \<longleftrightarrow> 0 < j"
      by (auto simp: exStoreF_def exStore_def)
  qed
  then have b': "\<not> (\<exists>j. 0 \<le> j \<and> j < lcnCnt exStoreF \<and> (iOrd (locs exStoreF ! nat j) = -1) \<noteq> (0 < j))"
    by blast
  have v: "closeInWin exK exStoreF 0 = Inr (3, exStoreF\<lparr>nInsideWin := nInsideWin exStoreF + 1\<rparr>)"
    by (simp add: closeInWin_def exStoreF_def exStore_def exK_def lcnCnt_def
          closeInWin_loop.simps Let_def)
  show ?thesis
    using closeInWin_unbounded[OF h, of exK] h b b' v by simp
qed

subsection \<open>closeOutWin\<close>

lemma closeOutWin_loop_done:
  "\<not> (lo > 0 \<or> hi < int (length ls)) \<Longrightarrow> closeOutWin_loop ls lo hi = Inr (-1)"
  by (simp add: closeOutWin_loop.simps[of ls lo hi])

lemma closeOutWin_loop_low:
  "lo > 0 \<Longrightarrow> lo < int (length ls) \<Longrightarrow> iOrd (ls ! nat lo) = -1 \<Longrightarrow> closeOutWin_loop ls lo hi = Inr lo"
  by (simp add: closeOutWin_loop.simps[of ls lo hi])

lemma closeOutWin_loop_high:
  "lo > 0 \<longrightarrow> lo < int (length ls) \<and> iOrd (ls ! nat lo) \<noteq> -1 \<Longrightarrow>
   hi < int (length ls) \<Longrightarrow> 0 \<le> hi \<Longrightarrow> iOrd (ls ! nat hi) = -1 \<Longrightarrow>
   closeOutWin_loop ls lo hi = Inr hi"
  by (subst closeOutWin_loop.simps) auto

lemma closeOutWin_loop_next:
  "lo > 0 \<or> hi < int (length ls) \<Longrightarrow>
   lo > 0 \<longrightarrow> lo < int (length ls) \<and> iOrd (ls ! nat lo) \<noteq> -1 \<Longrightarrow>
   hi < int (length ls) \<longrightarrow> 0 \<le> hi \<and> iOrd (ls ! nat hi) \<noteq> -1 \<Longrightarrow>
   closeOutWin_loop ls lo hi =
     closeOutWin_loop ls (if lo > 0 then lo - 1 else lo) (if hi < int (length ls) then hi + 1 else hi)"
  by (subst closeOutWin_loop.simps) auto

lemma outCand_next:
  assumes "lo > 0 \<longrightarrow> iOrd (ls ! nat lo) \<noteq> -1"
      and "hi < int (length ls) \<longrightarrow> iOrd (ls ! nat hi) \<noteq> -1"
  shows "outCand ls (if lo > 0 then lo - 1 else lo) (if hi < int (length ls) then hi + 1 else hi) n
         \<longleftrightarrow> outCand ls lo hi n"
proof -
  have 1: "1 \<le> n \<and> n \<le> lo \<longleftrightarrow> (n = lo \<and> lo > 0) \<or> (1 \<le> n \<and> n \<le> (if lo > 0 then lo - 1 else lo))"
    by auto
  have 2: "hi \<le> n \<and> n < int (length ls) \<longleftrightarrow>
           (n = hi \<and> hi < int (length ls)) \<or>
           ((if hi < int (length ls) then hi + 1 else hi) \<le> n \<and> n < int (length ls))"
    by auto
  show ?thesis
    unfolding outCand_def using assms 1 2 by metis
qed

lemma closeOutWin_loop_nearest:
  "0 \<le> lo \<Longrightarrow> lo \<le> p \<Longrightarrow> p \<le> hi \<Longrightarrow> p < int (length ls) \<Longrightarrow>
   (0 < lo \<and> hi < int (length ls) \<longrightarrow> p - lo = hi - p) \<Longrightarrow>
   \<exists>r. closeOutWin_loop ls lo hi = Inr r \<and>
       (if \<exists>n. outCand ls lo hi n
        then outCand ls lo hi r \<and>
             (\<forall>n. outCand ls lo hi n \<longrightarrow> \<bar>r - p\<bar> \<le> \<bar>n - p\<bar> \<and> (\<bar>n - p\<bar> = \<bar>r - p\<bar> \<longrightarrow> r \<le> n))
        else r = -1)"
proof (induction ls lo hi rule: closeOutWin_loop.induct)
  case (1 ls lo hi)
  let ?N = "int (length ls)"
  show ?case
  proof (cases "lo > 0 \<or> hi < ?N")
    case False
    then have "\<And>n. \<not> outCand ls lo hi n" by (auto simp: outCand_def)
    then show ?thesis using closeOutWin_loop_done[OF False] by simp
  next
    case active: True
    have loN: "lo < ?N" using 1 by linarith
    have hi0: "0 \<le> hi" using 1 by linarith
    show ?thesis
    proof (cases "lo > 0 \<and> iOrd (ls ! nat lo) = -1")
      case True
      then have r: "closeOutWin_loop ls lo hi = Inr lo"
        using closeOutWin_loop_low loN by blast
      have c: "outCand ls lo hi lo" using True by (simp add: outCand_def)
      have "\<bar>lo - p\<bar> \<le> \<bar>n - p\<bar> \<and> (\<bar>n - p\<bar> = \<bar>lo - p\<bar> \<longrightarrow> lo \<le> n)" if "outCand ls lo hi n" for n
        using that 1(2-) True unfolding outCand_def by (elim conjE disjE) linarith+
      then show ?thesis using r c by auto
    next
      case lowNo: False
      then have lowNo': "lo > 0 \<longrightarrow> lo < ?N \<and> iOrd (ls ! nat lo) \<noteq> -1" using loN by blast
      show ?thesis
      proof (cases "hi < ?N \<and> iOrd (ls ! nat hi) = -1")
        case True
        then have r: "closeOutWin_loop ls lo hi = Inr hi"
          using closeOutWin_loop_high[OF lowNo'] hi0 by blast
        have c: "outCand ls lo hi hi" using True by (simp add: outCand_def)
        have "\<bar>hi - p\<bar> \<le> \<bar>n - p\<bar> \<and> (\<bar>n - p\<bar> = \<bar>hi - p\<bar> \<longrightarrow> hi \<le> n)" if "outCand ls lo hi n" for n
        proof -
          from that consider (lowside) "1 \<le> n" "n \<le> lo" "iOrd (ls ! nat n) = -1"
            | (highside) "hi \<le> n" "n < ?N"
            unfolding outCand_def by blast
          then show ?thesis
          proof cases
            case lowside
            then have "n \<noteq> lo" using lowNo by auto
            then show ?thesis using lowside 1(2-) True by linarith
          next
            case highside
            then show ?thesis using 1(2-) by linarith
          qed
        qed
        then show ?thesis using r c by auto
      next
        case highNo: False
        then have highNo': "hi < ?N \<longrightarrow> 0 \<le> hi \<and> iOrd (ls ! nat hi) \<noteq> -1" using hi0 by blast
        let ?lo = "if lo > 0 then lo - 1 else lo" and ?hi = "if hi < ?N then hi + 1 else hi"
        have eq: "closeOutWin_loop ls lo hi = closeOutWin_loop ls ?lo ?hi"
          by (rule closeOutWin_loop_next[OF active lowNo' highNo'])
        have oc: "\<And>n. outCand ls ?lo ?hi n \<longleftrightarrow> outCand ls lo hi n"
          using outCand_next[of lo ls hi] lowNo highNo by blast
        have pre: "0 \<le> ?lo" "?lo \<le> p" "p \<le> ?hi" "0 < ?lo \<and> ?hi < ?N \<longrightarrow> p - ?lo = ?hi - p"
          using 1(2-) by (auto split: if_splits)
        have IH: "\<exists>r. closeOutWin_loop ls ?lo ?hi = Inr r \<and>
           (if \<exists>n. outCand ls ?lo ?hi n
            then outCand ls ?lo ?hi r \<and>
                 (\<forall>n. outCand ls ?lo ?hi n \<longrightarrow> \<bar>r - p\<bar> \<le> \<bar>n - p\<bar> \<and> (\<bar>n - p\<bar> = \<bar>r - p\<bar> \<longrightarrow> r \<le> n))
            else r = -1)"
          using "1.IH"[OF active _ _ _ _ pre(1,2,3) 1(5) pre(4)] lowNo' highNo' loN hi0 active
          by (auto simp: not_le)
        show ?thesis using IH unfolding eq oc .
      qed
    qed
  qed
qed


lemma probeRound_Suc:
  "probeRound N lo hi (Suc t) =
   probeRound N (if lo > 0 then lo - 1 else lo) (if hi < N then hi + 1 else hi) t"
  by (auto simp: probeRound_def)

lemma probeOrder_done: "\<not> (lo > 0 \<or> hi < N) \<Longrightarrow> probeOrder N lo hi = []"
  by (simp add: probeOrder_def)

lemma probeOrder_step:
  assumes "lo > 0 \<or> hi < N"
  shows "probeOrder N lo hi =
         probeRound N lo hi 0 @
         probeOrder N (if lo > 0 then lo - 1 else lo) (if hi < N then hi + 1 else hi)"
proof -
  let ?lo = "if lo > 0 then lo - 1 else lo" and ?hi = "if hi < N then hi + 1 else hi"
  have k: "max (nat lo) (nat (N - hi)) = Suc (max (nat ?lo) (nat (N - ?hi)))"
    using assms by (auto simp: max_def)
  have "map (probeRound N lo hi) [0..<Suc k] =
        probeRound N lo hi 0 # map (probeRound N ?lo ?hi) [0..<k]" for k
    by (simp only: map_upt_Suc probeRound_Suc)
  then show ?thesis
    unfolding probeOrder_def k by simp
qed

lemma firstUnvisited_Nil: "firstUnvisited ls [] = -1"
  by (simp add: firstUnvisited_def)

lemma firstUnvisited_Cons:
  "firstUnvisited ls (n # ns) = (if iOrd (ls ! nat n) = -1 then n else firstUnvisited ls ns)"
  by (simp add: firstUnvisited_def)

lemma closeOutWin_loop_probeOrder:
  "lo < int (length ls) \<Longrightarrow> 0 \<le> hi \<Longrightarrow>
   closeOutWin_loop ls lo hi = Inr (firstUnvisited ls (probeOrder (int (length ls)) lo hi))"
proof (induction ls lo hi rule: closeOutWin_loop.induct)
  case (1 ls lo hi)
  let ?N = "int (length ls)"
  show ?case
  proof (cases "lo > 0 \<or> hi < ?N")
    case False
    then show ?thesis
      using closeOutWin_loop_done[OF False] by (simp add: probeOrder_done firstUnvisited_Nil)
  next
    case active: True
    let ?lo = "if lo > 0 then lo - 1 else lo" and ?hi = "if hi < ?N then hi + 1 else hi"
    note po = probeOrder_step[OF active]
    show ?thesis
    proof (cases "lo > 0 \<and> iOrd (ls ! nat lo) = -1")
      case True
      then show ?thesis
        using closeOutWin_loop_low[of lo ls hi] 1(2) unfolding po
        by (simp add: probeRound_def firstUnvisited_Cons)
    next
      case lowNo: False
      then have lowNo': "lo > 0 \<longrightarrow> lo < ?N \<and> iOrd (ls ! nat lo) \<noteq> -1" using 1(2) by blast
      show ?thesis
      proof (cases "hi < ?N \<and> iOrd (ls ! nat hi) = -1")
        case True
        then show ?thesis
          using closeOutWin_loop_high[OF lowNo'] 1(3) lowNo unfolding po
          by (auto simp: probeRound_def firstUnvisited_Cons)
      next
        case highNo: False
        then have highNo': "hi < ?N \<longrightarrow> 0 \<le> hi \<and> iOrd (ls ! nat hi) \<noteq> -1" using 1(3) by blast
        have eq: "closeOutWin_loop ls lo hi = closeOutWin_loop ls ?lo ?hi"
          by (rule closeOutWin_loop_next[OF active lowNo' highNo'])
        have IH: "closeOutWin_loop ls ?lo ?hi = Inr (firstUnvisited ls (probeOrder ?N ?lo ?hi))"
          using "1.IH"[OF active] lowNo' highNo' 1(2,3) active
          by (auto simp: not_le)
        show ?thesis
          using lowNo highNo unfolding eq IH po
          by (auto simp: probeRound_def firstUnvisited_Cons)
      qed
    qed
  qed
qed


lemma closeOutWin_eq:
  "closeOutWin s p =
     (case closeOutWin_loop (locs s) (winStart s p) (winEnd s p) of
        Inl e \<Rightarrow> Inl e
      | Inr n \<Rightarrow> Inr (n, s\<lparr>nOutsideWin := nOutsideWin s + 1\<rparr>))"
  by (simp add: closeOutWin_def winStart_def winEnd_def Let_def max_def min_def not_less)

lemma window_bounds:
  assumes "0 \<le> p" "p < lcnCnt s" "0 \<le> iWin s"
  shows "0 \<le> winStart s p" "winStart s p \<le> p" "p \<le> winEnd s p" "winEnd s p \<le> lcnCnt s"
    and "0 < winStart s p \<and> winEnd s p < lcnCnt s \<longrightarrow> p - winStart s p = winEnd s p - p"
  using assms by (auto simp: winStart_def winEnd_def)

lemma closeOutWin_spec:
  assumes "0 \<le> p" "p < lcnCnt s" "0 \<le> iWin s"
  shows "\<exists>r. closeOutWin s p = Inr (r, s\<lparr>nOutsideWin := nOutsideWin s + 1\<rparr>) \<and>
           r = firstUnvisited (locs s) (probeOrder (lcnCnt s) (winStart s p) (winEnd s p)) \<and>
           (if \<exists>n. outCand (locs s) (winStart s p) (winEnd s p) n
            then outCand (locs s) (winStart s p) (winEnd s p) r \<and>
                 (\<forall>n. outCand (locs s) (winStart s p) (winEnd s p) n \<longrightarrow>
                    \<bar>r - p\<bar> \<le> \<bar>n - p\<bar> \<and> (\<bar>n - p\<bar> = \<bar>r - p\<bar> \<longrightarrow> r \<le> n))
            else r = -1)"
proof -
  note wb = window_bounds[OF assms]
  have pN: "p < int (length (locs s))" using assms(2) by (simp add: lcnCnt_def)
  have sym: "0 < winStart s p \<and> winEnd s p < int (length (locs s)) \<longrightarrow>
             p - winStart s p = winEnd s p - p"
    using wb(5) by (simp add: lcnCnt_def)
  from closeOutWin_loop_nearest[OF wb(1) wb(2) wb(3) pN sym]
  obtain r where r: "closeOutWin_loop (locs s) (winStart s p) (winEnd s p) = Inr r"
    and near: "if \<exists>n. outCand (locs s) (winStart s p) (winEnd s p) n
            then outCand (locs s) (winStart s p) (winEnd s p) r \<and>
                 (\<forall>n. outCand (locs s) (winStart s p) (winEnd s p) n \<longrightarrow>
                    \<bar>r - p\<bar> \<le> \<bar>n - p\<bar> \<and> (\<bar>n - p\<bar> = \<bar>r - p\<bar> \<longrightarrow> r \<le> n))
            else r = -1"
    by blast
  have "winStart s p < int (length (locs s))" "0 \<le> winEnd s p"
    using wb pN assms(1) by linarith+
  from closeOutWin_loop_probeOrder[OF this]
  have po: "r = firstUnvisited (locs s) (probeOrder (lcnCnt s) (winStart s p) (winEnd s p))"
    using r by (simp add: lcnCnt_def)
  have "closeOutWin s p = Inr (r, s\<lparr>nOutsideWin := nOutsideWin s + 1\<rparr>)"
    using r by (simp add: closeOutWin_eq)
  then show ?thesis using po near by blast
qed







subsection \<open>Sorting for output\<close>

lemma mset_qsort_place: "mset (qsort_place cmp a bs) = add_mset a (mset bs)"
  by (induction bs) simp_all

lemma mset_qsort: "mset (qsort cmp as) = mset as"
  by (induction as) (simp_all add: mset_qsort_place)

lemma set_qsort_place: "set (qsort_place cmp a bs) = insert a (set bs)"
  using mset_qsort_place[of cmp a bs, THEN arg_cong, of set_mset] by simp

lemma compIntsIx0_le: "compIntsIx0 a b \<le> 0 \<longleftrightarrow> iOrd a \<le> iOrd b"
  by (simp add: compIntsIx0_def)

lemma sorted_qsort_place:
  "sorted (map iOrd bs) \<Longrightarrow> sorted (map iOrd (qsort_place compIntsIx0 a bs))"
  by (induction bs) (auto simp: compIntsIx0_le set_qsort_place)

lemma sorted_qsort: "sorted (map iOrd (qsort compIntsIx0 as))"
  by (induction as) (simp_all add: sorted_qsort_place)

lemma qsort_place_front:
  "sorted (map iOrd (a # bs)) \<Longrightarrow> qsort_place compIntsIx0 a bs = a # bs"
  by (cases bs) (simp_all add: compIntsIx0_le)

lemma qsort_sorted_id: "sorted (map iOrd as) \<Longrightarrow> qsort compIntsIx0 as = as"
proof (induction as)
  case Nil
  then show ?case by simp
next
  case (Cons a as)
  then have "qsort compIntsIx0 as = as" by simp
  then show ?case using Cons.prems qsort_place_front[of a as] by simp
qed

lemma sorted_distinct_keys_unique:
  "mset xs = mset ys \<Longrightarrow> distinct (map f xs) \<Longrightarrow>
   sorted (map f xs) \<Longrightarrow> sorted (map f ys) \<Longrightarrow> xs = ys"
  for f :: "'a \<Rightarrow> int"
proof (induction xs arbitrary: ys)
  case Nil
  then show ?case by simp
next
  case (Cons a xs)
  then obtain b bs where ys: "ys = b # bs" by (cases ys) auto
  have sets: "set (a # xs) = set (b # bs)"
    using Cons.prems(1) ys by (metis set_mset_mset)
  have "f a \<le> f b" using Cons.prems(3) sets by (auto simp: ys)
  moreover have "f b \<le> f a" using Cons.prems(4) sets ys by auto
  ultimately have fab: "f a = f b" by simp
  have "inj_on f (set (a # xs))" using Cons.prems(2) by (simp only: distinct_map)
  then have ab: "a = b" using fab sets by (auto dest: inj_onD)
  have "xs = bs"
    using Cons.IH[of bs] Cons.prems ys ab by simp
  then show ?case using ab ys by simp
qed

lemma sorted_int_upt: "sorted (map int [0..<n])"
  by (induction n) (auto simp: sorted_append)

text \<open>Claim C8. On a completed store the sort by \<^verbatim>\<open>compIntsIx0\<close> puts the location with
  order value \<open>i\<close> at position \<open>i\<close>, keeps the locations, and sorting its output again
  changes nothing. Since the keys are distinct, the result is the only arrangement of the
  store that is ordered by the comparison function, whatever algorithm \<^verbatim>\<open>qsort\<close> uses.\<close>

theorem qsort_completed:
  assumes "completed ls"
  shows "map iOrd (qsort compIntsIx0 ls) = map int [0..<length ls] \<and>
         mset (qsort compIntsIx0 ls) = mset ls \<and>
         qsort compIntsIx0 (qsort compIntsIx0 ls) = qsort compIntsIx0 ls \<and>
         (\<forall>ys. mset ys = mset ls \<and> sorted_wrt (\<lambda>a b. compIntsIx0 a b \<le> 0) ys \<longrightarrow>
                ys = qsort compIntsIx0 ls)"
proof -
  let ?q = "qsort compIntsIx0 ls"
  have m: "mset ?q = mset ls" by (rule mset_qsort)
  have s: "sorted (map iOrd ?q)" by (rule sorted_qsort)
  have km: "mset (map iOrd ?q) = mset (map int [0..<length ls])"
  proof -
    have "mset (map iOrd ?q) = image_mset iOrd (mset ?q)" by simp
    also have "\<dots> = image_mset iOrd (mset ls)" by (simp only: m)
    also have "\<dots> = mset (map iOrd ls)" by simp
    finally show ?thesis using assms by (simp add: completed_def)
  qed
  have d0: "distinct (map int [0..<length ls])"
    by (simp add: distinct_map)
  have d: "distinct (map iOrd ?q)"
    using km d0 by (metis mset_eq_imp_distinct_iff)
  have 1: "map iOrd ?q = map int [0..<length ls]"
    using sorted_distinct_keys_unique[of "map iOrd ?q" "map int [0..<length ls]" "\<lambda>x. x"]
      km d s sorted_int_upt by simp
  have 3: "qsort compIntsIx0 ?q = ?q" using s by (rule qsort_sorted_id)
  have 4: "ys = ?q" if "mset ys = mset ls" "sorted_wrt (\<lambda>a b. compIntsIx0 a b \<le> 0) ys" for ys
  proof -
    have "sorted (map iOrd ys)"
      using that(2) by (simp add: sorted_map compIntsIx0_le)
    then show ?thesis
      using sorted_distinct_keys_unique[of ?q ys iOrd] m that(1) d s by simp
  qed
  show ?thesis using 1 m 3 4 by blast
qed

theorem qsort_completed_witness:
  "completed (locs exStoreG) \<and>
   map iOrd (qsort compIntsIx0 (locs exStoreG)) = map int [0..<length (locs exStoreG)] \<and>
   mset (qsort compIntsIx0 (locs exStoreG)) = mset (locs exStoreG) \<and>
   qsort compIntsIx0 (qsort compIntsIx0 (locs exStoreG)) = qsort compIntsIx0 (locs exStoreG) \<and>
   mset exSortedG = mset (locs exStoreG) \<and> sorted_wrt (\<lambda>a b. compIntsIx0 a b \<le> 0) exSortedG \<and>
   exSortedG = qsort compIntsIx0 (locs exStoreG)"
proof -
  have "[0..<5] = [0, 1, 2, 3, 4::nat]" by (simp add: upt_rec)
  then have h: "completed (locs exStoreG)"
    by (simp add: completed_def exStoreG_def exStore_def)
  have y: "mset exSortedG = mset (locs exStoreG)" "sorted_wrt (\<lambda>a b. compIntsIx0 a b \<le> 0) exSortedG"
    by (simp_all add: exSortedG_def exStoreG_def exStore_def compIntsIx0_def)
  show ?thesis using qsort_completed[OF h] h y by blast
qed

subsection \<open>The itinerary loop\<close>

lemma nextLocation_finds:
  fixes K :: "('t, 'v, 'd::linorder) nemo"
  assumes p: "0 \<le> p" "p < lcnCnt s" and h: "0 \<le> iWin s" and huge: "belowHuge K (locs s)"
      and v0: "iOrd (locs s ! 0) \<noteq> -1"
      and u: "0 \<le> u" "u < lcnCnt s" "iOrd (locs s ! nat u) = -1"
  shows "\<exists>r s1. closeInWin K s p = Inr (r, s1) \<and> locs s1 = locs s \<and> iWin s1 = iWin s \<and>
                 orderLog s1 = orderLog s \<and>
           (if r \<noteq> -1
            then nextLocation K s p = Inr (r, s1) \<and>
                 0 \<le> r \<and> r < lcnCnt s \<and> iOrd (locs s ! nat r) = -1
            else \<exists>r' s2. closeOutWin s1 p = Inr (r', s2) \<and> nextLocation K s p = Inr (r', s2) \<and>
                   locs s2 = locs s \<and> iWin s2 = iWin s \<and> orderLog s2 = orderLog s \<and>
                   0 \<le> r' \<and> r' < lcnCnt s \<and> iOrd (locs s ! nat r') = -1)"
proof -
  let ?s1 = "s\<lparr>nInsideWin := nInsideWin s + 1\<rparr>"
  let ?r = "closeInWin_loop K (locs s) (Us8ToNcs K (ptUs8 (locs s ! nat p))) (winEnd s p) (winStart s p)
            (DOUBLE_HUGE K) (-1)"
  have ciw: "closeInWin K s p = Inr (?r, ?s1)" by (rule closeInWin_eq[OF p])
  note aux = closeInWin_minimum_aux[OF p huge]
  show ?thesis
  proof (cases "?r = -1")
    case False
    then have c: "candIn (locs s) (winStart s p) (winEnd s p) ?r" by (rule aux(2))
    then have "0 \<le> ?r" "?r < lcnCnt s" "iOrd (locs s ! nat ?r) = -1"
      using candIn_window_bounds[OF c] by (simp_all add: candIn_def)
    moreover have "nextLocation K s p = Inr (?r, ?s1)"
      using False by (simp add: nextLocation_def ciw)
    ultimately show ?thesis using ciw False by simp
  next
    case True
    then have none: "\<And>m. \<not> candIn (locs s) (winStart s p) (winEnd s p) m" using aux(1) by blast
    have w1: "winStart ?s1 p = winStart s p" "winEnd ?s1 p = winEnd s p" "lcnCnt ?s1 = lcnCnt s"
      by (simp_all add: winStart_def winEnd_def lcnCnt_def)
    have p1: "p < lcnCnt ?s1" "0 \<le> iWin ?s1" using p h by (simp_all add: lcnCnt_def)
    from closeOutWin_spec[OF p(1) p1]
    obtain r' where out: "closeOutWin ?s1 p = Inr (r', ?s1\<lparr>nOutsideWin := nOutsideWin ?s1 + 1\<rparr>)"
      and near0: "if \<exists>n. outCand (locs ?s1) (winStart ?s1 p) (winEnd ?s1 p) n
                 then outCand (locs ?s1) (winStart ?s1 p) (winEnd ?s1 p) r' \<and>
                      (\<forall>n. outCand (locs ?s1) (winStart ?s1 p) (winEnd ?s1 p) n \<longrightarrow>
                         \<bar>r' - p\<bar> \<le> \<bar>n - p\<bar> \<and> (\<bar>n - p\<bar> = \<bar>r' - p\<bar> \<longrightarrow> r' \<le> n))
                 else r' = -1"
      by blast
    have near: "(\<exists>n. outCand (locs s) (winStart s p) (winEnd s p) n) \<Longrightarrow>
                outCand (locs s) (winStart s p) (winEnd s p) r'"
      using near0 unfolding w1 by (simp split: if_splits)
    have "u \<noteq> 0" using v0 u(3) by auto
    then have u1: "1 \<le> u" using u(1) by simp
    have "u < winStart s p \<or> winEnd s p \<le> u"
      using none[of u] u(3) by (auto simp: candIn_def)
    then have "outCand (locs s) (winStart s p) (winEnd s p) u"
      using u u1 by (auto simp: outCand_def lcnCnt_def)
    then have oc: "outCand (locs s) (winStart s p) (winEnd s p) r'" using near by auto
    note wb = window_bounds[OF p h]
    have r': "0 \<le> r'" "r' < lcnCnt s" "iOrd (locs s ! nat r') = -1"
      using oc wb p by (auto simp: outCand_def lcnCnt_def)
    then have "r' \<noteq> -1" by simp
    then have "nextLocation K s p = Inr (r', ?s1\<lparr>nOutsideWin := nOutsideWin ?s1 + 1\<rparr>)"
      using True by (simp add: nextLocation_def ciw out)
    then show ?thesis using ciw True out r' by simp
  qed
qed

lemma unvisited_exists:
  assumes "length (filter (\<lambda>l. iOrd l \<noteq> -1) ls) < length ls"
  shows "\<exists>u. 0 \<le> u \<and> u < int (length ls) \<and> iOrd (ls ! nat u) = -1"
proof -
  have "\<exists>l \<in> set ls. \<not> iOrd l \<noteq> -1"
  proof (rule ccontr)
    assume "\<not> (\<exists>l \<in> set ls. \<not> iOrd l \<noteq> -1)"
    then have "filter (\<lambda>l. iOrd l \<noteq> -1) ls = ls" by (simp add: filter_id_conv)
    then show False using assms by simp
  qed
  then obtain i where "i < length ls" "iOrd (ls ! i) = -1"
    by (auto simp: in_set_conv_nth)
  then show ?thesis by (intro exI[of _ "int i"]) simp
qed

text \<open>Claim C4. In a store where location 0 is visited and the number \<open>k\<close> of visited
  locations satisfies \<open>1 \<le> k < N\<close>, for a pivot that is an index of the store, a half
  window that is not negative and proxy distances below \<^verbatim>\<open>NEMO_DOUBLE_HUGE\<close>: the two
  searches together return an index of the store that is unvisited; whenever \<^verbatim>\<open>closeInWin\<close>
  returns \<open>-1\<close>, \<^verbatim>\<open>closeOutWin\<close> does not; the assertion of line 129 is not reached.\<close>

theorem nextLocation_valid:
  fixes K :: "('t, 'v, 'd::linorder) nemo"
  assumes "0 \<le> p" "p < lcnCnt s" "0 \<le> iWin s" "belowHuge K (locs s)"
      and "iOrd (locs s ! 0) \<noteq> -1"
      and "int (length (filter (\<lambda>l. iOrd l \<noteq> -1) (locs s))) = k" "1 \<le> k" "k < lcnCnt s"
  shows "(\<exists>r s'. nextLocation K s p = Inr (r, s') \<and>
                  0 \<le> r \<and> r < lcnCnt s \<and> iOrd (locs s ! nat r) = -1) \<and>
         (\<forall>s1. closeInWin K s p = Inr (-1, s1) \<longrightarrow>
                (\<exists>r s2. closeOutWin s1 p = Inr (r, s2) \<and> r \<noteq> -1)) \<and>
         nextLocation K s p \<noteq> Inl InvariantViolation"
proof -
  have "length (filter (\<lambda>l. iOrd l \<noteq> -1) (locs s)) < length (locs s)"
    using assms(6,8) by (simp add: lcnCnt_def)
  from unvisited_exists[OF this] obtain u where
    u: "0 \<le> u" "u < lcnCnt s" "iOrd (locs s ! nat u) = -1"
    by (auto simp: lcnCnt_def)
  from nextLocation_finds[OF assms(1-5) u, of ] show ?thesis
    by (fastforce split: if_splits)
qed

theorem nextLocation_valid_witness:
  "0 \<le> (0::int) \<and> 0 < lcnCnt exStoreH \<and> 0 \<le> iWin exStoreH \<and> belowHuge exK (locs exStoreH) \<and>
   iOrd (locs exStoreH ! 0) \<noteq> -1 \<and>
   int (length (filter (\<lambda>l. iOrd l \<noteq> -1) (locs exStoreH))) = 1 \<and> (1::int) \<le> 1 \<and> 1 < lcnCnt exStoreH \<and>
   closeInWin exK exStoreH 0 = Inr (-1, exStoreH\<lparr>nInsideWin := nInsideWin exStoreH + 1\<rparr>) \<and>
   (\<exists>r s2. closeOutWin (exStoreH\<lparr>nInsideWin := nInsideWin exStoreH + 1\<rparr>) 0 = Inr (r, s2) \<and> r \<noteq> -1) \<and>
   (\<exists>r s'. nextLocation exK exStoreH 0 = Inr (r, s') \<and>
             0 \<le> r \<and> r < lcnCnt exStoreH \<and> iOrd (locs exStoreH ! nat r) = -1) \<and>
   nextLocation exK exStoreH 0 \<noteq> Inl InvariantViolation"
proof -
  have h: "0 \<le> (0::int)" "0 < lcnCnt exStoreH" "0 \<le> iWin exStoreH" "belowHuge exK (locs exStoreH)"
    "iOrd (locs exStoreH ! 0) \<noteq> -1"
    "int (length (filter (\<lambda>l. iOrd l \<noteq> -1) (locs exStoreH))) = 1" "(1::int) \<le> 1" "1 < lcnCnt exStoreH"
    by (simp_all add: exStoreH_def exStore_def exK_def lcnCnt_def belowHuge_def)
  have v: "closeInWin exK exStoreH 0 = Inr (-1, exStoreH\<lparr>nInsideWin := nInsideWin exStoreH + 1\<rparr>)"
    by (simp add: closeInWin_def exStoreH_def exStore_def exK_def lcnCnt_def
          closeInWin_loop.simps Let_def)
  show ?thesis
    using nextLocation_valid[OF h] h v by blast
qed

lemma itinInv_zero_visited:
  assumes "itinInv s p k"
  shows "iOrd (locs s ! 0) \<noteq> -1"
proof -
  from assms obtain e where "e \<in> set (orderLog s)" "fst e = 0"
    by (auto simp: itinInv_def)
  then have "0 \<le> snd (snd e)" "iOrd (locs s ! nat (fst e)) = snd (snd e)"
    using assms by (auto simp: itinInv_def)
  then show ?thesis using \<open>fst e = 0\<close> by simp
qed

lemma itinInv_unvisited:
  assumes "itinInv s p k" "k < lcnCnt s"
  shows "\<exists>u. 0 \<le> u \<and> u < lcnCnt s \<and> iOrd (locs s ! nat u) = -1"
proof -
  let ?V = "fst ` set (orderLog s)"
  have len: "length (orderLog s) = nat k"
    using assms(1) by (auto simp: itinInv_def dest: arg_cong[where f = length])
  have "card ?V = length (orderLog s)"
    using assms(1) by (simp add: itinInv_def distinct_card flip: set_map)
  then have c: "card ?V = nat k" using len by simp
  have sub: "?V \<subseteq> {0..<lcnCnt s}" using assms(1) by (auto simp: itinInv_def)
  have "card {0..<lcnCnt s} = nat (lcnCnt s)" by simp
  then have "card ?V < card {0..<lcnCnt s}" using c assms by (simp add: itinInv_def)
  then have "?V \<noteq> {0..<lcnCnt s}" by auto
  then obtain u where "u \<in> {0..<lcnCnt s}" "u \<notin> ?V" using sub by blast
  then show ?thesis using assms(1) by (auto simp: itinInv_def)
qed

lemma ptUs8_visit: "map ptUs8 (locs (visit s n k)) = map ptUs8 (locs s)"
proof -
  have "(map ptUs8 xs)[i := ptUs8 (xs ! i)] = map ptUs8 xs" for xs :: "'a loc list" and i
    by (cases "i < length xs") (simp_all add: list_update_same_conv list_update_beyond)
  then show ?thesis by (simp add: visit_def map_update)
qed

lemma belowHuge_cong:
  assumes "map ptUs8 ls' = map ptUs8 ls"
  shows "belowHuge K ls' = belowHuge K ls"
proof -
  have eq: "belowHuge K xs \<longleftrightarrow>
        (\<forall>a \<in> ptUs8 ` set xs. \<forall>b \<in> ptUs8 ` set xs.
           ChordSq3 K (Us8ToNcs K a) (Us8ToNcs K b) < DOUBLE_HUGE K)" for xs :: "'a loc list"
    by (simp add: belowHuge_def)
  have "ptUs8 ` set ls' = ptUs8 ` set ls"
    using assms by (metis set_map)
  then show ?thesis by (simp only: eq)
qed

lemma itinInv_visit:
  assumes inv: "itinInv s p k" and k: "k < lcnCnt s"
      and s': "locs s' = locs s" "orderLog s' = orderLog s"
      and r: "0 \<le> r" "r < lcnCnt s" "iOrd (locs s ! nat r) = -1"
  shows "itinInv (visit s' r k) r (k + 1)"
proof -
  let ?t = "visit s' r k"
  have N: "lcnCnt ?t = lcnCnt s" by (simp add: visit_def lcnCnt_def s')
  have log: "orderLog ?t = orderLog s @ [(r, -1, k)]" by (simp add: visit_def s' r)
  have k1: "1 \<le> k" using inv by (simp add: itinInv_def)
  have rN: "nat r < length (locs s)" using r by (simp add: lcnCnt_def nat_less_iff)
  have at_r: "iOrd (locs ?t ! nat r) = k" using rN by (simp add: visit_def s')
  have other: "iOrd (locs ?t ! nat i) = iOrd (locs s ! nat i)" if "0 \<le> i" "i \<noteq> r" for i
    using that r(1) by (simp add: visit_def s')
  have fresh: "r \<notin> fst ` set (orderLog s)"
  proof
    assume "r \<in> fst ` set (orderLog s)"
    then obtain e where "e \<in> set (orderLog s)" "fst e = r" by auto
    then have "0 \<le> iOrd (locs s ! nat r)" using inv by (auto simp: itinInv_def)
    then show False using r(3) by simp
  qed
  have vals: "map (snd \<circ> snd) (orderLog ?t) = map int [0..<nat (k + 1)]"
  proof -
    have "nat (k + 1) = Suc (nat k)" using k1 by simp
    then show ?thesis using inv k1 by (simp add: log itinInv_def)
  qed
  have dist: "distinct (map fst (orderLog ?t))"
    using inv fresh by (simp add: log itinInv_def)
  have ent: "0 \<le> fst e \<and> fst e < lcnCnt ?t \<and> fst (snd e) = -1 \<and> 0 \<le> snd (snd e) \<and>
             iOrd (locs ?t ! nat (fst e)) = snd (snd e)" if "e \<in> set (orderLog ?t)" for e
  proof (cases "e = (r, -1, k)")
    case True
    then show ?thesis using r k1 at_r N by simp
  next
    case False
    then have e: "e \<in> set (orderLog s)" using that by (simp add: log)
    then have "fst e \<noteq> r" using fresh by auto
    then show ?thesis using e inv other[of "fst e"] N by (simp add: itinInv_def)
  qed
  have rest: "iOrd (locs ?t ! nat i) = -1"
    if "0 \<le> i" "i < lcnCnt ?t" "i \<notin> fst ` set (orderLog ?t)" for i
  proof -
    have "i \<noteq> r" "i \<notin> fst ` set (orderLog s)" using that(3) by (auto simp: log)
    then show ?thesis using that(1,2) inv other[of i] N by (simp add: itinInv_def)
  qed
  have zero: "0 \<in> fst ` set (orderLog ?t)" using inv by (auto simp: log itinInv_def)
  show ?thesis
    unfolding itinInv_def using r N k k1 vals dist ent rest zero by (auto simp del: image_set)
qed

lemma main_loop_inv:
  fixes K :: "('t, 'v, 'd::linorder) nemo"
  shows "itinInv s p k \<Longrightarrow> 0 \<le> iWin s \<Longrightarrow> belowHuge K (locs s) \<Longrightarrow>
   \<exists>t q. main_loop K s p k = Inr t \<and> itinInv t q (lcnCnt s) \<and> lcnCnt t = lcnCnt s \<and>
         map ptUs8 (locs t) = map ptUs8 (locs s)"
proof (induction K s p k rule: main_loop.induct)
  case (1 K s p k)
  show ?case
  proof (cases "k < lcnCnt s")
    case False
    then have "k = lcnCnt s" using 1(2) by (simp add: itinInv_def)
    then show ?thesis using 1(2) False by (subst main_loop.simps) auto
  next
    case True
    have p: "0 \<le> p" "p < lcnCnt s" using 1(2) by (simp_all add: itinInv_def)
    from itinInv_unvisited[OF 1(2) True] obtain u where
      u: "0 \<le> u" "u < lcnCnt s" "iOrd (locs s ! nat u) = -1" by blast
    from nextLocation_finds[OF p 1(3) 1(4) itinInv_zero_visited[OF 1(2)] u]
    obtain r s' where nl: "nextLocation K s p = Inr (r, s')"
      and s': "locs s' = locs s" "iWin s' = iWin s" "orderLog s' = orderLog s"
      and r: "0 \<le> r" "r < lcnCnt s" "iOrd (locs s ! nat r) = -1"
      by (fastforce split: if_splits)
    let ?t = "visit s' r k"
    have inv': "itinInv ?t r (k + 1)"
      by (rule itinInv_visit[OF 1(2) True s'(1,3) r])
    have pt: "map ptUs8 (locs ?t) = map ptUs8 (locs s)" by (simp add: ptUs8_visit s')
    have w: "0 \<le> iWin ?t" using 1(3) s' by (simp add: visit_def)
    have bh: "belowHuge K (locs ?t)" using 1(4) belowHuge_cong[OF pt, of K] by simp
    have N: "lcnCnt ?t = lcnCnt s" by (simp add: visit_def lcnCnt_def s')
    from "1.IH"[OF True nl refl inv' w bh]
    obtain t q where "main_loop K ?t r (k + 1) = Inr t" "itinInv t q (lcnCnt ?t)"
      "lcnCnt t = lcnCnt ?t" "map ptUs8 (locs t) = map ptUs8 (locs ?t)"
      by blast
    moreover have "main_loop K s p k = main_loop K ?t r (k + 1)"
      using True nl by (subst main_loop.simps) simp
    ultimately show ?thesis using N pt by auto
  qed
qed

lemma filter_distinct_key:
  "distinct (map f xs) \<Longrightarrow> e \<in> set xs \<Longrightarrow> filter (\<lambda>x. f x = f e) xs = [e]"
proof (induction xs)
  case Nil
  then show ?case by simp
next
  case (Cons x xs)
  show ?case
  proof (cases "x = e")
    case True
    then have "f e \<notin> f ` set xs" using Cons.prems(1) by simp
    then have "\<forall>y \<in> set xs. f y \<noteq> f e" by (metis imageI)
    then show ?thesis using True by (simp add: filter_empty_conv)
  next
    case False
    then have "e \<in> set xs" using Cons.prems(2) by simp
    moreover have "f x \<noteq> f e" using Cons.prems(1) \<open>e \<in> set xs\<close> by auto
    ultimately show ?thesis using Cons by simp
  qed
qed

lemma nat_image_upto: "nat ` {0..<int n} = {0..<n}"
proof (rule set_eqI)
  fix x
  show "x \<in> nat ` {0..<int n} \<longleftrightarrow> x \<in> {0..<n}"
  proof
    assume "x \<in> nat ` {0..<int n}"
    then show "x \<in> {0..<n}" by auto
  next
    assume "x \<in> {0..<n}"
    then have "int x \<in> {0..<int n}" and "x = nat (int x)" by simp_all
    then show "x \<in> nat ` {0..<int n}" by (metis imageI)
  qed
qed

lemma itinInv_final:
  assumes inv: "itinInv t q (lcnCnt t)"
  shows "mset (map iOrd (locs t)) = mset (map int [0..<length (locs t)])"
    and "0 \<le> i \<Longrightarrow> i < lcnCnt t \<Longrightarrow>
         filter (\<lambda>e. fst e = i) (orderLog t) = [(i, -1, iOrd (locs t ! nat i))]"
proof -
  let ?N = "length (locs t)" and ?log = "orderLog t"
  let ?V = "fst ` set ?log"
  have vals: "map (snd \<circ> snd) ?log = map int [0..<?N]"
    using inv by (simp add: itinInv_def lcnCnt_def)
  then have len: "length ?log = ?N" by (auto dest: arg_cong[where f = length])
  have dist: "distinct (map fst ?log)" using inv by (simp add: itinInv_def)
  have ent: "\<And>e. e \<in> set ?log \<Longrightarrow> 0 \<le> fst e \<and> fst e < int ?N \<and> fst (snd e) = -1 \<and>
               iOrd (locs t ! nat (fst e)) = snd (snd e)"
    using inv by (simp add: itinInv_def lcnCnt_def)
  have "card ?V = ?N"
    using dist len by (simp add: distinct_card flip: set_map)
  moreover have sub: "?V \<subseteq> {0..<int ?N}" using ent by auto
  ultimately have V: "?V = {0..<int ?N}"
    by (intro card_subset_eq) simp_all
  show "filter (\<lambda>e. fst e = i) ?log = [(i, -1, iOrd (locs t ! nat i))]"
    if "0 \<le> i" "i < lcnCnt t"
  proof -
    have "i \<in> ?V" using that V by (simp add: lcnCnt_def)
    then obtain e where e: "e \<in> set ?log" "fst e = i" by auto
    have "e = (i, -1, iOrd (locs t ! nat i))"
      using ent[OF e(1)] e(2) by (cases e) auto
    then show ?thesis using filter_distinct_key[OF dist e(1)] e(2) by simp
  qed
  let ?is = "map (nat \<circ> fst) ?log" and ?g = "\<lambda>j. iOrd (locs t ! j)"
  have "inj_on nat ?V"
  proof (rule inj_onI)
    fix a b assume "a \<in> ?V" "b \<in> ?V" "nat a = nat b"
    then have "0 \<le> a" "0 \<le> b" using sub by auto
    then show "a = b" using \<open>nat a = nat b\<close> by simp
  qed
  then have "distinct (map nat (map fst ?log))"
    using dist by (subst distinct_map) (auto simp only: set_map)
  then have d: "distinct ?is" by simp
  have "set ?is = nat ` ?V" by (simp add: image_image)
  also have "\<dots> = {0..<?N}"
    unfolding V by (rule nat_image_upto)
  finally have "set ?is = set [0..<?N]" by simp
  then have m: "mset ?is = mset [0..<?N]"
    using d by (metis set_eq_iff_mset_eq_distinct distinct_upt)
  have g: "map ?g ?is = map int [0..<?N]"
    using ent by (simp add: vals[symmetric])
  have "mset (map iOrd (locs t)) = mset (map iOrd (map (\<lambda>j. locs t ! j) [0..<?N]))"
    by (simp only: map_nth)
  also have "\<dots> = image_mset ?g (mset [0..<?N])" by (simp add: comp_def)
  also have "\<dots> = image_mset ?g (mset ?is)" by (simp only: m)
  also have "\<dots> = mset (map ?g ?is)" by (simp only: mset_map)
  finally show "mset (map iOrd (locs t)) = mset (map int [0..<length (locs t)])"
    by (simp only: g)
qed

lemma length_loadLocs: "length (loadLocs junk recs) = length recs"
  by (simp add: loadLocs_def)

lemma ptUs8_loadLocs: "map ptUs8 (loadLocs junk recs) = recs"
  by (simp add: loadLocs_def comp_def map_nth)

lemma iOrd_loadLocs: "n < length recs \<Longrightarrow> iOrd (loadLocs junk recs ! n) = -1"
  by (simp add: loadLocs_def)

lemma main_itinerary_inv:
  fixes K :: "('t, 'v, 'd::linorder) nemo"
  assumes "recs \<noteq> []" "0 \<le> h" "belowHuge K (loadLocs junk recs)"
  shows "\<exists>t q. main_itinerary K (loaded junk h recs) = Inr t \<and> itinInv t q (lcnCnt t) \<and>
               lcnCnt t = int (length recs) \<and> map ptUs8 (locs t) = recs"
proof -
  let ?s0 = "(loaded junk h recs)\<lparr>nInsideWin := 0, nOutsideWin := 0\<rparr>"
  let ?s1 = "visit ?s0 0 0"
  have l0: "locs ?s0 = loadLocs junk recs" "orderLog ?s0 = []" "iWin ?s0 = h"
    by (simp_all add: loaded_def)
  have N: "lcnCnt ?s0 = int (length recs)" "lcnCnt ?s1 = int (length recs)"
    by (simp_all add: lcnCnt_def visit_def l0 length_loadLocs)
  have pos: "0 < length recs" using assms(1) by simp
  have log: "orderLog ?s1 = [(0, -1, 0)]"
    using pos by (simp add: visit_def l0 iOrd_loadLocs)
  have at0: "iOrd (locs ?s1 ! 0) = 0"
    using pos by (simp add: visit_def l0 length_loadLocs)
  have other: "iOrd (locs ?s1 ! nat i) = -1" if "0 < i" "i < int (length recs)" for i
    using that by (simp add: visit_def l0 iOrd_loadLocs nat_less_iff)
  have inv: "itinInv ?s1 0 1"
  proof -
    have "1 \<le> int (length recs)" using pos by linarith
    moreover have "iOrd (locs ?s1 ! nat i) = -1"
      if "0 \<le> i" "i < int (length recs)" "i \<noteq> 0" for i
      using that other[of i] by simp
    ultimately show ?thesis
      unfolding itinInv_def N log using at0 pos by (auto simp: Suc_le_eq)
  qed
  have pt: "map ptUs8 (locs ?s1) = recs"
    by (simp add: ptUs8_visit l0 ptUs8_loadLocs)
  have bh: "belowHuge K (locs ?s1)"
    using assms(3) belowHuge_cong[of "locs ?s1" "loadLocs junk recs" K] pt
    by (simp add: ptUs8_loadLocs)
  have w: "0 \<le> iWin ?s1" using assms(2) by (simp add: visit_def loaded_def)
  from main_loop_inv[OF inv w bh] obtain t q where
    t: "main_loop K ?s1 0 1 = Inr t" "itinInv t q (lcnCnt ?s1)" "lcnCnt t = lcnCnt ?s1"
       "map ptUs8 (locs t) = map ptUs8 (locs ?s1)"
    by blast
  have "main_itinerary K (loaded junk h recs) = main_loop K ?s1 0 1"
    using pos N(1) by (simp add: main_itinerary_def Let_def)
  then show ?thesis using t N pt by auto
qed

text \<open>Claim C1. For a loaded store of \<open>N \<ge> 1\<close> locations, a window size in
  \<open>[16, 32000]\<close> and proxy distances below \<^verbatim>\<open>NEMO_DOUBLE_HUGE\<close>: the itinerary code
  returns; the coordinates are unchanged; the order values of the final store are
  \<open>0, \<dots>, N - 1\<close>, each once; and the log of stores to \<^verbatim>\<open>iOrd\<close> has \<open>N\<close> entries, for every
  location exactly one, which changed the value \<open>-1\<close> into the final order value of that
  location.\<close>

theorem main_itinerary_permutation:
  fixes K :: "('t, 'v, 'd::linorder) nemo"
  assumes "recs \<noteq> []" "MIN_WIN \<le> w" "w \<le> MAX_WIN" "belowHuge K (loadLocs junk recs)"
  shows "\<exists>s. main_itinerary K (loaded junk (c_div w 2) recs) = Inr s \<and>
             map ptUs8 (locs s) = recs \<and>
             mset (map iOrd (locs s)) = mset (map int [0..<length recs]) \<and>
             length (orderLog s) = length recs \<and>
             (\<forall>i. 0 \<le> i \<and> i < int (length recs) \<longrightarrow>
                filter (\<lambda>e. fst e = i) (orderLog s) = [(i, -1, iOrd (locs s ! nat i))])"
proof -
  have h: "0 \<le> c_div w 2" using assms(2) by (simp add: c_div_nonneg MIN_WIN_def)
  from main_itinerary_inv[OF assms(1) h assms(4)] obtain t q where
    t: "main_itinerary K (loaded junk (c_div w 2) recs) = Inr t" "itinInv t q (lcnCnt t)"
       "lcnCnt t = int (length recs)" "map ptUs8 (locs t) = recs"
    by blast
  have len: "length (locs t) = length recs" using t(3) by (simp add: lcnCnt_def)
  have "length (orderLog t) = length recs"
    using t(2,3) by (auto simp: itinInv_def dest: arg_cong[where f = length])
  then show ?thesis
    using t itinInv_final[OF t(2)] len by auto
qed

theorem main_itinerary_permutation_witness:
  "[10, 1, 2, 9, 8] \<noteq> ([] :: int list) \<and> MIN_WIN \<le> 16 \<and> 16 \<le> MAX_WIN \<and>
   belowHuge exK (loadLocs (\<lambda>n. 0) [10, 1, 2, 9, 8]) \<and>
   (\<exists>s. main_itinerary exK (loaded (\<lambda>n. 0) (c_div 16 2) [10, 1, 2, 9, 8]) = Inr s \<and>
        map ptUs8 (locs s) = [10, 1, 2, 9, 8] \<and>
        mset (map iOrd (locs s)) = mset (map int [0..<length [10, 1, 2, 9, 8 :: int]]) \<and>
        length (orderLog s) = length [10, 1, 2, 9, 8 :: int] \<and>
        (\<forall>i. 0 \<le> i \<and> i < int (length [10, 1, 2, 9, 8 :: int]) \<longrightarrow>
           filter (\<lambda>e. fst e = i) (orderLog s) = [(i, -1, iOrd (locs s ! nat i))]))"
proof -
  have "[0..<5] = [0, 1, 2, 3, 4::nat]" by (simp add: upt_rec)
  then have h: "[10, 1, 2, 9, 8] \<noteq> ([] :: int list)" "MIN_WIN \<le> 16" "16 \<le> MAX_WIN"
    "belowHuge exK (loadLocs (\<lambda>n. 0) [10, 1, 2, 9, 8])"
    by (simp_all add: MIN_WIN_def MAX_WIN_def belowHuge_def loadLocs_def exK_def)
  show ?thesis
    using main_itinerary_permutation[OF h] h by blast
qed

text \<open>The scenario of the specification: five points at the positions 10, 1, 2, 9, 8 and
  a half window of 1. Every window is empty of candidates, every next location comes from
  the outward search, and the itinerary is the input order.\<close>

lemma main_itinerary_scenario:
  "main_itinerary exK (loaded (\<lambda>n. 0) 1 [10, 1, 2, 9, 8]) =
     Inr \<lparr>locs = [\<lparr>iOrd = 0, unused = 0, ptUs8 = 10\<rparr>, \<lparr>iOrd = 1, unused = 0, ptUs8 = 1\<rparr>,
                 \<lparr>iOrd = 2, unused = 0, ptUs8 = 2\<rparr>, \<lparr>iOrd = 3, unused = 0, ptUs8 = 9\<rparr>,
                 \<lparr>iOrd = 4, unused = 0, ptUs8 = 8\<rparr>],
          iWin = 1, nInsideWin = 4, nOutsideWin = 4,
          orderLog = [(0, -1, 0), (1, -1, 1), (2, -1, 2), (3, -1, 3), (4, -1, 4)]\<rparr>"
proof -
  have u: "[0..<5] = [0, 1, 2, 3, 4::nat]" by (simp add: upt_rec)
  show ?thesis
    by (simp add: main_itinerary_def loaded_def loadLocs_def u visit_def lcnCnt_def
          main_loop.simps nextLocation_def closeInWin_def closeOutWin_def exK_def
          closeInWin_loop.simps closeOutWin_loop.simps Let_def)
qed

end
